theory Spec2Isabelle
  imports
    Main
    "HOL-Library.Char_ord"
    "HOL-Library.List_Lexorder"
    "HOL-Library.Sublist"
begin

section \<open>Strings\<close>

text \<open>
  JavaScript strings are modelled as \<^typ>\<open>string\<close>, one \<^typ>\<open>char\<close> per code unit.
  The model covers the ASCII range: axis tags, style codes, weights and subset labels of
  the font service are ASCII. The order on strings is the lexicographic order on code
  units (shorter prefix first), which is what \<^verbatim>\<open>Array.prototype.sort()\<close> without a
  comparator uses.
\<close>

definition isWhiteSpace :: "char \<Rightarrow> bool" where
  "isWhiteSpace c \<longleftrightarrow> c \<in> set [CHR 0x09, CHR 0x0A, CHR 0x0B, CHR 0x0C, CHR 0x0D, CHR 0x20]"

text \<open>
  \<^verbatim>\<open>String.prototype.trim\<close>: white space and line terminators (the ASCII ones: tab, line
  feed, vertical tab, form feed, carriage return, space) leave both ends.
\<close>

definition trim :: "string \<Rightarrow> string" where
  "trim s = rev (dropWhile isWhiteSpace (rev (dropWhile isWhiteSpace s)))"

section \<open>Subset partitioner (\<^verbatim>\<open>splitCssIntoSubsets\<close>)\<close>

text \<open>
  The CSS parser css-tree is a third-party library. What the function reads of it is:
  the comments handed to \<^verbatim>\<open>onComment\<close>, in the order of the calls, each with its raw
  text and the line on which it ends; and the nodes \<^verbatim>\<open>findAll\<close> returns for the
  predicate "at-rule named font-face", in the order of the walk, each with the line on
  which it starts and the text \<^verbatim>\<open>generate\<close> prints for it. The parser is tolerant: it
  returns a tree for every input, so its answer is a total function of the input.
\<close>

record raw_comment =
  raw_value :: string
  loc_end_line :: nat

record atrule =
  loc_start_line :: nat
  generate :: string

record parsed =
  onComment_calls :: "raw_comment list"
  font_face_nodes :: "atrule list"

text \<open>The entries of the local array \<^verbatim>\<open>comments\<close> and of the result \<^verbatim>\<open>data\<close>.\<close>

record comment =
  comment_value :: string
  endLine :: nat

record fragment =
  subset :: "string option"
  css :: string

text \<open>\<^verbatim>\<open>comments.push({ value: value.trim(), endLine: loc.end.line })\<close>\<close>

definition collect_comment :: "raw_comment \<Rightarrow> comment" where
  "collect_comment r = \<lparr>comment_value = trim (raw_value r), endLine = loc_end_line r\<rparr>"

text \<open>\<^verbatim>\<open>xs.at(-1)\<close>: the last element, \<^verbatim>\<open>undefined\<close> on the empty array.\<close>

definition at_last :: "'a list \<Rightarrow> 'a option" where
  "at_last xs = (if xs = [] then None else Some (last xs))"

text \<open>The body of the loop over \<^verbatim>\<open>nodes\<close> (lines 49 to 55).\<close>

fun collect_subsets :: "comment list \<Rightarrow> atrule list \<Rightarrow> fragment list \<Rightarrow> fragment list" where
  "collect_subsets comments [] data = data"
| "collect_subsets comments (node # nodes) data =
     (case at_last (filter (\<lambda>comment. endLine comment < loc_start_line node) comments) of
        None \<Rightarrow> collect_subsets comments nodes data
      | Some comment \<Rightarrow>
          collect_subsets comments nodes
            (data @ [\<lparr>subset = Some (comment_value comment), css = generate node\<rparr>]))"

definition splitCssIntoSubsets :: "(string \<Rightarrow> parsed) \<Rightarrow> string \<Rightarrow> fragment list" where
  "splitCssIntoSubsets parse input =
     (let comments = map collect_comment (onComment_calls (parse input));
          nodes = font_face_nodes (parse input)
      in if length comments = 0 then [\<lparr>subset = None, css = input\<rparr>]
         else collect_subsets comments nodes [])"

text \<open>
  The words of the specification: the nearest preceding comment of a rule is the comment
  with the greatest end line that is still strictly less than the rule's start line.
  Comments are told apart by their position \<open>i\<close> in the list.
\<close>

definition nearest_preceding :: "raw_comment list \<Rightarrow> atrule \<Rightarrow> nat \<Rightarrow> bool" where
  "nearest_preceding cs node i \<longleftrightarrow>
     i < length cs \<and> loc_end_line (cs ! i) < loc_start_line node \<and>
     (\<forall>c \<in> set cs. loc_end_line c < loc_start_line node
        \<longrightarrow> loc_end_line c \<le> loc_end_line (cs ! i))"

definition orphan :: "raw_comment list \<Rightarrow> atrule \<Rightarrow> bool" where
  "orphan cs node \<longleftrightarrow> (\<forall>c \<in> set cs. \<not> loc_end_line c < loc_start_line node)"

section \<open>Axis-name comparator (\<^verbatim>\<open>googleFlavoredSorting\<close>)\<close>

text \<open>
  \<^verbatim>\<open>String.prototype.toLowerCase\<close> on the ASCII range: the letters A to Z move down by
  32, every other code unit stays.
\<close>

definition toLowerCase_char :: "char \<Rightarrow> char" where
  "toLowerCase_char c =
     (if CHR ''A'' \<le> c \<and> c \<le> CHR ''Z'' then char_of (of_char c + (32 :: nat)) else c)"

definition toLowerCase :: "string \<Rightarrow> string" where
  "toLowerCase s = map toLowerCase_char s"

text \<open>\<^verbatim>\<open>s.charAt(i)\<close>: the one-unit string at index \<open>i\<close>, the empty string out of range.\<close>

definition charAt :: "string \<Rightarrow> nat \<Rightarrow> string" where
  "charAt s i = (if i < length s then [s ! i] else [])"

definition Number :: "bool \<Rightarrow> int" where
  "Number b = (if b then 1 else 0)"

text \<open>
  \<^verbatim>\<open>a.localeCompare(b)\<close> is the collation of the host (ICU in the usual engines); the
  language standard leaves its result to the implementation. It is the parameter
  \<open>localeCompare\<close> of the comparator.
\<close>

definition googleFlavoredSorting :: "(string \<Rightarrow> string \<Rightarrow> int) \<Rightarrow> string \<Rightarrow> string \<Rightarrow> int" where
  "googleFlavoredSorting localeCompare a b =
     (let isALowercase = (charAt a 0 = toLowerCase (charAt a 0));
          isBLowercase = (charAt b 0 = toLowerCase (charAt b 0))
      in if isALowercase \<noteq> isBLowercase then Number isBLowercase - Number isALowercase
         else localeCompare a b)"

text \<open>
  \<^verbatim>\<open>Array.prototype.sort(comparefn)\<close> is a stable sort: \<open>x\<close> stays in front of \<open>y\<close> when
  \<open>comparefn(x, y) \<le> 0\<close>. Modelled as insertion from the right end, which gives the
  one stable sorted order whenever the comparator is consistent, and a permutation of
  the array in any case.
\<close>

fun insert_by :: "('a \<Rightarrow> 'a \<Rightarrow> int) \<Rightarrow> 'a \<Rightarrow> 'a list \<Rightarrow> 'a list" where
  "insert_by comparefn x [] = [x]"
| "insert_by comparefn x (y # ys) =
     (if comparefn x y \<le> 0 then x # y # ys else y # insert_by comparefn x ys)"

definition sort_by :: "('a \<Rightarrow> 'a \<Rightarrow> int) \<Rightarrow> 'a list \<Rightarrow> 'a list" where
  "sort_by comparefn xs = foldr (insert_by comparefn) xs []"

text \<open>
  The words of the specification: a name starts with a lowercase letter, or with an
  uppercase letter.
\<close>

definition starts_lowercase :: "string \<Rightarrow> bool" where
  "starts_lowercase s \<longleftrightarrow> (case s of [] \<Rightarrow> False | c # _ \<Rightarrow> CHR ''a'' \<le> c \<and> c \<le> CHR ''z'')"

definition starts_uppercase :: "string \<Rightarrow> bool" where
  "starts_uppercase s \<longleftrightarrow> (case s of [] \<Rightarrow> False | c # _ \<Rightarrow> CHR ''A'' \<le> c \<and> c \<le> CHR ''Z'')"

section \<open>Data of the provider\<close>

datatype error = TypeError | FetchError

text \<open>The style keywords of \<^verbatim>\<open>ResolveFontOptions.styles\<close> and the table \<^verbatim>\<open>styleMap\<close>.\<close>

datatype style = italic | oblique | normal

fun styleMap :: "style \<Rightarrow> string" where
  "styleMap italic = ''1''"
| "styleMap oblique = ''1''"
| "styleMap normal = ''0''"

record ResolveFontOptions =
  weights :: "string list"
  styles :: "style list"
  subsets :: "string list"

text \<open>
  An entry of a variable-axis list is a string or a pair of strings. The objects
  \<^verbatim>\<open>variableAxis\<close>, \<^verbatim>\<open>variableAxis[family]\<close> and \<^verbatim>\<open>glyphs\<close> are association lists of
  their own properties, the keys in the order \<^verbatim>\<open>Object.keys\<close> lists them. A missing
  \<^verbatim>\<open>variableAxis\<close> is the empty list: line 98 reads \<^verbatim>\<open>variableAxis[family]\<close> through
  \<^verbatim>\<open>Object.keys\<close> only, which gives no key for a missing object and none for an inherited
  value either. A missing \<^verbatim>\<open>glyphs\<close> is \<open>None\<close>.
\<close>

datatype axis_entry = Single string | Pair string string

record ProviderOption =
  variableAxis :: "(string \<times> (string \<times> axis_entry list) list) list"
  glyphs :: "(string \<times> string list) list option"

text \<open>
  An entry of the family index. The numbers are never read by the provider; they are
  carried as integers. \<open>fonts\<close> lists its entries in the order of \<^verbatim>\<open>Object.keys\<close>.
\<close>

record font_shape =
  thickness :: "int option"
  slant :: "int option"
  width :: "int option"
  lineHeight :: "int option"

record axis_meta =
  tag :: string
  axis_min :: int
  axis_max :: int
  defaultValue :: int

record FontIndexMeta =
  family :: string
  index_subsets :: "string list"
  fonts :: "(string \<times> font_shape) list"
  axes :: "axis_meta list"

text \<open>What \<^verbatim>\<open>prepareWeights\<close> returns: a weight and whether it is a variable range.\<close>

record weight_entry =
  weight :: string
  variable :: bool

text \<open>
  A face record: the descriptors the extractor read from a block, of a type \<open>'d\<close> this
  file never looks into, and the optional \<^verbatim>\<open>meta\<close> object with its optional priority.
\<close>

record FontFaceMeta =
  priority :: "nat option"

record 'd FontFaceData =
  descriptors :: 'd
  meta :: "FontFaceMeta option"

text \<open>
  A request to \<^verbatim>\<open>https://fonts.googleapis.com/css2\<close>: the user-agent header and the two
  query parameters.
\<close>

record request =
  user_agent :: string
  query_family :: string
  query_text :: "string option"

text \<open>
  The effects of a resolution: the requests sent so far, oldest first, and the content of
  the cache.
\<close>

record 'd world =
  requests :: "request list"
  storage :: "(string \<times> 'd FontFaceData list) list"

text \<open>
  What the provider closes over or imports: the family index \<^verbatim>\<open>googleFonts\<close>, the
  provider options \<^verbatim>\<open>_options\<close>, and the functions \<^verbatim>\<open>prepareWeights\<close> (its arguments
  \<^verbatim>\<open>inputWeights\<close>, \<^verbatim>\<open>hasVariableWeights\<close>, \<^verbatim>\<open>weights\<close> in this order), \<^verbatim>\<open>$fetch\<close> (the
  answer to a request, \<open>None\<close> when it is rejected), the CSS parser, \<^verbatim>\<open>extractFontFaceData\<close>,
  the host's \<^verbatim>\<open>localeCompare\<close> and \<^verbatim>\<open>hash\<close>.
\<close>

record 'd env =
  googleFonts :: "FontIndexMeta list"
  provider_options :: ProviderOption
  prepareWeights :: "string list \<Rightarrow> bool \<Rightarrow> string list \<Rightarrow> weight_entry list"
  fetch :: "request \<Rightarrow> string option"
  css_tree_parse :: "string \<Rightarrow> parsed"
  extractFontFaceData :: "string \<Rightarrow> 'd FontFaceData list"
  localeCompare :: "string \<Rightarrow> string \<Rightarrow> int"
  hash :: "ResolveFontOptions \<Rightarrow> string"

definition userAgents :: "(string \<times> string) list" where
  "userAgents =
     [(''woff2'', ''Mozilla/5.0 (Macintosh; Intel Mac OS X 10_15_7) AppleWebKit/537.36 (KHTML, like Gecko) Chrome/121.0.0.0 Safari/537.36''),
      (''ttf'', ''Mozilla/5.0 (Windows NT 6.1) AppleWebKit/534.54.16 (KHTML, like Gecko) Version/5.1.4 Safari/534.54.16'')]"

section \<open>Inherited properties\<close>

text \<open>
  A property read \<^verbatim>\<open>obj[key]\<close> on an object that has no own property \<^verbatim>\<open>key\<close> goes to
  \<^verbatim>\<open>Object.prototype\<close>. These are its properties as the language defines them, each with
  what its \<^verbatim>\<open>length\<close> property holds: the number of parameters for the eleven functions,
  nothing for \<^verbatim>\<open>__proto__\<close>, which reads as \<^verbatim>\<open>Object.prototype\<close> itself. None of the values
  is nullish, none is iterable, and none has a method \<^verbatim>\<open>flatMap\<close>, \<^verbatim>\<open>join\<close> or \<^verbatim>\<open>map\<close>.
\<close>

definition Object_prototype :: "(string \<times> nat option) list" where
  "Object_prototype =
     [(''constructor'', Some 1), (''__defineGetter__'', Some 2), (''__defineSetter__'', Some 2),
      (''hasOwnProperty'', Some 1), (''__lookupGetter__'', Some 1), (''__lookupSetter__'', Some 1),
      (''isPrototypeOf'', Some 1), (''propertyIsEnumerable'', Some 1), (''toString'', Some 0),
      (''valueOf'', Some 0), (''__proto__'', None), (''toLocaleString'', Some 0)]"

text \<open>
  What the variables \<^verbatim>\<open>axisValue\<close> and \<^verbatim>\<open>resolvedVariants\<close> can hold at run time: an array
  of strings, or an inherited value with its \<^verbatim>\<open>length\<close>.
\<close>

datatype js_value = StringArray "string list" | Inherited "nat option"

text \<open>\<^verbatim>\<open>v.length\<close>, \<open>None\<close> for \<^verbatim>\<open>undefined\<close>.\<close>

definition value_length :: "js_value \<Rightarrow> nat option" where
  "value_length v = (case v of StringArray xs \<Rightarrow> Some (length xs) | Inherited n \<Rightarrow> n)"

text \<open>A name that every object inherits.\<close>

definition inherited_name :: "string \<Rightarrow> bool" where
  "inherited_name name \<longleftrightarrow> name \<in> fst ` set Object_prototype"

section \<open>Variant axis resolver (\<^verbatim>\<open>getFontDetails\<close>, lines 79 to 111)\<close>

text \<open>\<^verbatim>\<open>xs.join(sep)\<close> on an array of strings.\<close>

fun join :: "string \<Rightarrow> string list \<Rightarrow> string" where
  "join sep [] = []"
| "join sep [x] = x"
| "join sep (x # y # ys) = x @ sep @ join sep (y # ys)"

text \<open>\<^verbatim>\<open>[...new Set(xs)]\<close>: each value once, in the order of its first occurrence.\<close>

fun Set_add_all :: "'a list \<Rightarrow> 'a list \<Rightarrow> 'a list" where
  "Set_add_all seen [] = seen"
| "Set_add_all seen (x # xs) = Set_add_all (if x \<in> set seen then seen else seen @ [x]) xs"

definition new_Set :: "'a list \<Rightarrow> 'a list" where
  "new_Set xs = Set_add_all [] xs"

text \<open>\<^verbatim>\<open>s.replace(' ', '..')\<close>: the first space only.\<close>

fun replace_space :: "string \<Rightarrow> string" where
  "replace_space [] = []"
| "replace_space (c # cs) = (if c = CHR '' '' then ''..'' @ cs else c # replace_space cs)"

text \<open>The local \<^verbatim>\<open>styles\<close> (line 79) and the local \<^verbatim>\<open>weights\<close> (lines 81 to 90).\<close>

definition resolved_styles :: "ResolveFontOptions \<Rightarrow> string list" where
  "resolved_styles options = sort (new_Set (map styleMap (styles options)))"

definition resolved_weights :: "'d env \<Rightarrow> FontIndexMeta \<Rightarrow> ResolveFontOptions \<Rightarrow> weight_entry list" where
  "resolved_weights env font options =
     map (\<lambda>v. if variable v then \<lparr>weight = replace_space (weight v), variable = variable v\<rparr> else v)
       (prepareWeights env (weights options)
          (list_ex (\<lambda>a. tag a = ''wght'') (axes font))
          (map fst (fonts font)))"

definition render_entry :: "axis_entry \<Rightarrow> string" where
  "render_entry v = (case v of Pair lo hi \<Rightarrow> lo @ ''..'' @ hi | Single s \<Rightarrow> s)"

text \<open>
  The value of an axis (lines 99 to 102). The axis name is read on the object literal:
  its two own keys first, then what the literal inherits. Only when that read gives
  \<^verbatim>\<open>undefined\<close> does \<^verbatim>\<open>??\<close> go on to the caller's list, and calling \<^verbatim>\<open>map\<close> on a missing
  list is a \<^verbatim>\<open>TypeError\<close>.
\<close>

definition lookup_axisValue ::
  "string list \<Rightarrow> string list \<Rightarrow> (string \<times> axis_entry list) list \<Rightarrow> string \<Rightarrow> error + js_value" where
  "lookup_axisValue weight_tokens style_codes overrides axis =
     (if axis = ''wght'' then Inr (StringArray weight_tokens)
      else if axis = ''ital'' then Inr (StringArray style_codes)
      else
        (case map_of Object_prototype axis of
           Some len \<Rightarrow> Inr (Inherited len)
         | None \<Rightarrow>
             (case map_of overrides axis of
                None \<Rightarrow> Inl TypeError
              | Some entries \<Rightarrow> Inr (StringArray (map render_entry entries)))))"

text \<open>The sorted axis names the loop of line 98 runs over.\<close>

definition active_axes :: "(string \<Rightarrow> string \<Rightarrow> int) \<Rightarrow> (string \<times> axis_entry list) list \<Rightarrow> string list" where
  "active_axes lc overrides =
     sort_by (googleFlavoredSorting lc) (''wght'' # ''ital'' # map fst overrides)"

text \<open>
  The loop of lines 98 to 111. The state is the pair of \<^verbatim>\<open>resolvedAxes\<close> and
  \<^verbatim>\<open>resolvedVariants\<close>. When \<^verbatim>\<open>resolvedVariants.length\<close> is not 0, line 108 calls
  \<^verbatim>\<open>flatMap\<close> on \<^verbatim>\<open>resolvedVariants\<close>, which only an array has; the callback, which runs
  since the array is not empty, spreads \<^verbatim>\<open>axisValue\<close>, which only an array allows.
\<close>

fun resolve_loop ::
  "(string \<Rightarrow> error + js_value) \<Rightarrow> string list \<Rightarrow> string list \<times> js_value
     \<Rightarrow> error + (string list \<times> js_value)" where
  "resolve_loop valueOf [] state = Inr state"
| "resolve_loop valueOf (axis # rest) (resolvedAxes, resolvedVariants) =
     (case valueOf axis of
        Inl e \<Rightarrow> Inl e
      | Inr axisValue \<Rightarrow>
          if value_length resolvedVariants = Some 0
          then resolve_loop valueOf rest (resolvedAxes @ [axis], axisValue)
          else
            (case resolvedVariants of
               Inherited _ \<Rightarrow> Inl TypeError
             | StringArray variants \<Rightarrow>
                 (case axisValue of
                    Inherited _ \<Rightarrow> Inl TypeError
                  | StringArray vals \<Rightarrow>
                      resolve_loop valueOf rest
                        (resolvedAxes @ [axis],
                         StringArray
                           (sort (concat (map (\<lambda>v. map (\<lambda>o'. join '','' [v, o']) vals) variants)))))))"

definition resolveAxes ::
  "(string \<Rightarrow> string \<Rightarrow> int) \<Rightarrow> string list \<Rightarrow> string list \<Rightarrow> (string \<times> axis_entry list) list
     \<Rightarrow> error + (string list \<times> js_value)" where
  "resolveAxes lc weight_tokens style_codes overrides =
     resolve_loop (lookup_axisValue weight_tokens style_codes overrides) (active_axes lc overrides)
       ([], StringArray [])"

section \<open>Resolution orchestrator (\<^verbatim>\<open>getFontDetails\<close>, \<^verbatim>\<open>resolveFont\<close>)\<close>

text \<open>
  \<^verbatim>\<open>f.meta ??= {}; f.meta.priority = priority\<close>. Face records are values here: the
  objects the extractor returns are taken to be fresh, so that the assignment reaches the
  record at hand and no other.
\<close>

definition set_priority :: "nat \<Rightarrow> 'd FontFaceData \<Rightarrow> 'd FontFaceData" where
  "set_priority p f =
     f\<lparr>meta := Some ((case meta f of None \<Rightarrow> \<lparr>priority = None\<rparr> | Some m \<Rightarrow> m)\<lparr>priority := Some p\<rparr>)\<rparr>"

text \<open>The filter of line 129: a fragment with no label, or with the empty label, stays.\<close>

definition keep_group :: "string list \<Rightarrow> fragment \<Rightarrow> bool" where
  "keep_group wanted grp =
     (case fragment.subset grp of
        None \<Rightarrow> True
      | Some s \<Rightarrow> if s = [] then True else s \<in> set wanted)"

text \<open>
  The local \<^verbatim>\<open>glyphs\<close> (line 80). The family name is read on the \<^verbatim>\<open>glyphs\<close> object; an
  inherited value is not nullish, so \<^verbatim>\<open>?.\<close> goes on and calls its \<^verbatim>\<open>join\<close>, which it does
  not have: a \<^verbatim>\<open>TypeError\<close>.
\<close>

definition glyph_text :: "ProviderOption \<Rightarrow> string \<Rightarrow> error + string option" where
  "glyph_text opts family_name =
     (case glyphs opts of
        None \<Rightarrow> Inr None
      | Some table \<Rightarrow>
          (case map_of table family_name of
             Some names \<Rightarrow> Inr (Some (concat names))
           | None \<Rightarrow>
               (case map_of Object_prototype family_name of
                  Some _ \<Rightarrow> Inl TypeError
                | None \<Rightarrow> Inr None)))"

text \<open>
  The request of lines 117 to 128; an empty \<^verbatim>\<open>glyphs\<close> string adds no \<^verbatim>\<open>text\<close>. Building the
  query calls \<^verbatim>\<open>join\<close> on \<^verbatim>\<open>resolvedVariants\<close>, which only an array has.
\<close>

definition css2_request ::
  "string \<Rightarrow> string option \<Rightarrow> string list \<Rightarrow> js_value \<Rightarrow> string \<Rightarrow> error + request" where
  "css2_request family_name glyph resolvedAxes resolvedVariants agent =
     (case resolvedVariants of
        Inherited _ \<Rightarrow> Inl TypeError
      | StringArray variants \<Rightarrow>
          Inr \<lparr>user_agent = agent,
               query_family = family_name @ '':'' @ join '','' resolvedAxes @ ''@'' @ join '';'' variants,
               query_text = (case glyph of None \<Rightarrow> None | Some g \<Rightarrow> if g = [] then None else Some g)\<rparr>)"

text \<open>The face records one flavor adds (lines 129 to 138).\<close>

definition flavor_faces :: "'d env \<Rightarrow> string list \<Rightarrow> nat \<Rightarrow> string \<Rightarrow> 'd FontFaceData list" where
  "flavor_faces env wanted p rawCss =
     (let groups = filter (keep_group wanted) (splitCssIntoSubsets (css_tree_parse env) rawCss)
      in concat (map (\<lambda>grp. map (set_priority p) (extractFontFaceData env (css grp))) groups))"

text \<open>
  The loop over \<^verbatim>\<open>userAgents\<close> (lines 116 to 140). An error while the request is built
  ends the resolution before anything is sent. A rejected request ends it with the error;
  the request has been sent by then.
\<close>

fun fetch_loop ::
  "'d env \<Rightarrow> string list \<Rightarrow> (string \<Rightarrow> error + request) \<Rightarrow> (string \<times> string) list \<Rightarrow> nat
     \<Rightarrow> 'd FontFaceData list \<Rightarrow> 'd world \<Rightarrow> (error + 'd FontFaceData list) \<times> 'd world" where
  "fetch_loop env wanted request_for [] p resolvedFontFaceData w = (Inr resolvedFontFaceData, w)"
| "fetch_loop env wanted request_for ((extension, agent) # rest) p resolvedFontFaceData w =
     (case request_for agent of
        Inl e \<Rightarrow> (Inl e, w)
      | Inr req \<Rightarrow>
          (let w' = w\<lparr>requests := requests w @ [req]\<rparr>
           in case fetch env req of
                None \<Rightarrow> (Inl FetchError, w')
              | Some rawCss \<Rightarrow>
                  fetch_loop env wanted request_for rest (p + 1)
                    (resolvedFontFaceData @ flavor_faces env wanted p rawCss) w'))"

definition getFontDetails ::
  "'d env \<Rightarrow> string \<Rightarrow> ResolveFontOptions \<Rightarrow> 'd world \<Rightarrow> (error + 'd FontFaceData list) \<times> 'd world" where
  "getFontDetails env family_name options w =
     (case find (\<lambda>font. family font = family_name) (googleFonts env) of
        None \<Rightarrow> (Inl TypeError, w)
      | Some font \<Rightarrow>
          (let style_codes = resolved_styles options
           in case glyph_text (provider_options env) family_name of
                Inl e \<Rightarrow> (Inl e, w)
              | Inr glyph \<Rightarrow>
                  (let weight_entries = resolved_weights env font options
                   in if length weight_entries = 0 \<or> length style_codes = 0 then (Inr [], w)
                      else
                        (case resolveAxes (localeCompare env) (map weight weight_entries) style_codes
                                (case map_of (variableAxis (provider_options env)) family_name of
                                   None \<Rightarrow> [] | Some overrides \<Rightarrow> overrides) of
                           Inl e \<Rightarrow> (Inl e, w)
                         | Inr (resolvedAxes, resolvedVariants) \<Rightarrow>
                             fetch_loop env (subsets options)
                               (css2_request family_name glyph resolvedAxes resolvedVariants)
                               userAgents 0 [] w))))"

text \<open>
  Modelled from the spec: \<^verbatim>\<open>ctx.storage.getItem(key, init)\<close>, the cache, is not in the
  source file. The specification gives it as \<^verbatim>\<open>getOrCompute(key, compute)\<close> with
  write-once-then-read semantics per key: a stored value is returned as it is, otherwise
  the value is computed, stored under the key and returned.
\<close>

definition getItem ::
  "string \<Rightarrow> ('d world \<Rightarrow> (error + 'd FontFaceData list) \<times> 'd world) \<Rightarrow> 'd world
     \<Rightarrow> (error + 'd FontFaceData list) \<times> 'd world" where
  "getItem key init w =
     (case map_of (storage w) key of
        Some cached \<Rightarrow> (Inr cached, w)
      | None \<Rightarrow>
          (case init w of
             (Inl e, w') \<Rightarrow> (Inl e, w')
           | (Inr computed, w') \<Rightarrow> (Inr computed, w'\<lparr>storage := (key, computed) # storage w'\<rparr>)))"

definition cache_key :: "'d env \<Rightarrow> string \<Rightarrow> ResolveFontOptions \<Rightarrow> string" where
  "cache_key env fontFamily options = ''google:'' @ fontFamily @ ''-'' @ hash env options @ ''-data.json''"

text \<open>
  \<^verbatim>\<open>resolveFont\<close>: \<open>Inr None\<close> is the absent result of the bare \<^verbatim>\<open>return\<close>, \<open>Inr (Some fonts)\<close>
  the object \<^verbatim>\<open>{ fonts }\<close>.
\<close>

definition resolveFont ::
  "'d env \<Rightarrow> string \<Rightarrow> ResolveFontOptions \<Rightarrow> 'd world
     \<Rightarrow> (error + 'd FontFaceData list option) \<times> 'd world" where
  "resolveFont env fontFamily options w =
     (if \<not> list_ex (\<lambda>font. family font = fontFamily) (googleFonts env) then (Inr None, w)
      else
        (case getItem (cache_key env fontFamily options) (getFontDetails env fontFamily options) w of
           (Inl e, w') \<Rightarrow> (Inl e, w')
         | (Inr fonts', w') \<Rightarrow> (Inr (Some fonts'), w')))"

text \<open>The priority a face record carries, if any.\<close>

definition face_priority :: "'d FontFaceData \<Rightarrow> nat option" where
  "face_priority f = (case meta f of None \<Rightarrow> None | Some m \<Rightarrow> priority m)"

section \<open>Sample documents\<close>

text \<open>
  Concrete inputs with the answers of the parser for them, for the instances below. Line
  numbers start at 1; a comment's text is what stands between its delimiters.
\<close>

definition two_subsets_css :: string where
  "two_subsets_css =
     ''/* latin */'' @ [CHR 0x0A] @ ''@font-face{font-family:X;src:url(a.woff2);}'' @ [CHR 0x0A] @
     ''/* cyrillic */'' @ [CHR 0x0A] @ ''@font-face{font-family:X;src:url(b.woff2);}''"

definition orphan_css :: string where
  "orphan_css =
     ''@font-face{font-family:X;src:url(a.woff2);}'' @ [CHR 0x0A] @
     ''/* latin */'' @ [CHR 0x0A] @ ''@font-face{font-family:X;src:url(b.woff2);}''"

definition one_subset_css :: string where
  "one_subset_css = ''/* latin */'' @ [CHR 0x0A] @ ''@font-face{font-family:X;src:url(b.woff2);}''"

definition orphan_removed_css :: string where
  "orphan_removed_css =
     [CHR 0x0A] @ ''/* latin */'' @ [CHR 0x0A] @ ''@font-face{font-family:X;src:url(b.woff2);}''"

definition plain_css :: string where
  "plain_css = ''@font-face{font-family:X;src:url(a.woff2);}''"

definition sample_parse :: "string \<Rightarrow> parsed" where
  "sample_parse input =
     (if input = two_subsets_css then
        \<lparr>onComment_calls =
           [\<lparr>raw_value = '' latin '', loc_end_line = 1\<rparr>,
            \<lparr>raw_value = '' cyrillic '', loc_end_line = 3\<rparr>],
         font_face_nodes =
           [\<lparr>loc_start_line = 2, generate = ''@font-face{font-family:X;src:url(a.woff2)}''\<rparr>,
            \<lparr>loc_start_line = 4, generate = ''@font-face{font-family:X;src:url(b.woff2)}''\<rparr>]\<rparr>
      else if input = orphan_css then
        \<lparr>onComment_calls = [\<lparr>raw_value = '' latin '', loc_end_line = 2\<rparr>],
         font_face_nodes =
           [\<lparr>loc_start_line = 1, generate = ''@font-face{font-family:X;src:url(a.woff2)}''\<rparr>,
            \<lparr>loc_start_line = 3, generate = ''@font-face{font-family:X;src:url(b.woff2)}''\<rparr>]\<rparr>
      else if input = orphan_removed_css then
        \<lparr>onComment_calls = [\<lparr>raw_value = '' latin '', loc_end_line = 2\<rparr>],
         font_face_nodes =
           [\<lparr>loc_start_line = 3, generate = ''@font-face{font-family:X;src:url(b.woff2)}''\<rparr>]\<rparr>
      else if input = one_subset_css then
        \<lparr>onComment_calls = [\<lparr>raw_value = '' latin '', loc_end_line = 1\<rparr>],
         font_face_nodes =
           [\<lparr>loc_start_line = 2, generate = ''@font-face{font-family:X;src:url(b.woff2)}''\<rparr>]\<rparr>
      else if input = plain_css then
        \<lparr>onComment_calls = [],
         font_face_nodes =
           [\<lparr>loc_start_line = 1, generate = ''@font-face{font-family:X;src:url(a.woff2)}''\<rparr>]\<rparr>
      else \<lparr>onComment_calls = [], font_face_nodes = []\<rparr>)"

text \<open>
  A comparison by code units in the place of the host's collation. On names made of
  lowercase ASCII letters only, or of uppercase ASCII letters only, the usual collations
  give the same order.
\<close>

definition codeUnitCompare :: "string \<Rightarrow> string \<Rightarrow> int" where
  "codeUnitCompare a b = (if a < b then - 1 else if a = b then 0 else 1)"

text \<open>
  The collation of the usual hosts (ICU, with the rules of the root and of the English
  locale) on strings of ASCII letters and digits: the strings are compared without regard
  to case first; when that finds no difference, the string that has the lowercase letter
  where the two first differ comes first.
\<close>

definition hostLocaleCompare :: "string \<Rightarrow> string \<Rightarrow> int" where
  "hostLocaleCompare a b =
     (if toLowerCase a < toLowerCase b then - 1
      else if toLowerCase b < toLowerCase a then 1
      else if a = b then 0
      else if b < a then - 1
      else 1)"

text \<open>
  A family index with one family, and collaborators that answer the two requests of a
  resolution with the sample documents above. The stand-in for \<^verbatim>\<open>prepareWeights\<close> keeps
  the requested weights that the family has; the stand-in for the extractor returns one
  record per fragment, holding the fragment's text.
\<close>

definition sample_options :: ResolveFontOptions where
  "sample_options = \<lparr>weights = [''400''], styles = [normal], subsets = [''latin'']\<rparr>"

definition sample_env :: "string env" where
  "sample_env =
     \<lparr>googleFonts =
        [\<lparr>family = ''Roboto'', index_subsets = [''latin'', ''cyrillic''],
          fonts = [(''400'', \<lparr>thickness = None, slant = None, width = None, lineHeight = None\<rparr>),
                   (''700'', \<lparr>thickness = None, slant = None, width = None, lineHeight = None\<rparr>)],
          axes = []\<rparr>],
      provider_options = \<lparr>variableAxis = [], glyphs = None\<rparr>,
      prepareWeights = (\<lambda>inputWeights hasVariableWeights available.
         map (\<lambda>v. \<lparr>weight = v, variable = False\<rparr>) (filter (\<lambda>v. v \<in> set available) inputWeights)),
      fetch = (\<lambda>req. if user_agent req = snd (userAgents ! 0) then Some two_subsets_css
                      else Some one_subset_css),
      css_tree_parse = sample_parse,
      extractFontFaceData = (\<lambda>text. [\<lparr>descriptors = text, meta = None\<rparr>]),
      localeCompare = codeUnitCompare,
      hash = (\<lambda>options. ''0'')\<rparr>"

definition empty_world :: "string world" where
  "empty_world = \<lparr>requests = [], storage = []\<rparr>"


text \<open>The sample provider configured with an empty value list for the axis \<^verbatim>\<open>opsz\<close>.\<close>

definition opsz_env :: "string env" where
  "opsz_env = sample_env\<lparr>provider_options := \<lparr>variableAxis = [(''Roboto'', [(''opsz'', [])])], glyphs = None\<rparr>\<rparr>"

section \<open>Properties of the subset partitioner\<close>

lemma collect_subsets_append:
  "collect_subsets cs nodes data = data @ collect_subsets cs nodes []"
proof (induction nodes arbitrary: data)
  case Nil
  then show ?case by simp
next
  case (Cons node nodes)
  show ?case
  proof (cases "at_last (filter (\<lambda>comment. endLine comment < loc_start_line node) cs)")
    case None
    then show ?thesis using Cons.IH [of data] by simp
  next
    case (Some c)
    then show ?thesis
      using Cons.IH [of "data @ [\<lparr>subset = Some (comment_value c), css = generate node\<rparr>]"]
        Cons.IH [of "[\<lparr>subset = Some (comment_value c), css = generate node\<rparr>]"]
      by simp
  qed
qed

text \<open>
  C6: when the parser reports no comment for the input, the result is the single
  fragment with no subset label whose CSS text is the input itself.
\<close>

theorem split_no_comments:
  "onComment_calls (parse input) = [] \<Longrightarrow>
   splitCssIntoSubsets parse input = [\<lparr>subset = None, css = input\<rparr>]"
  by (simp add: splitCssIntoSubsets_def)

lemma collect_subsets_concat:
  "collect_subsets cs nodes [] =
     concat (map (\<lambda>node. case at_last (filter (\<lambda>comment. endLine comment < loc_start_line node) cs) of
        None \<Rightarrow> [] | Some c \<Rightarrow> [\<lparr>subset = Some (comment_value c), css = generate node\<rparr>]) nodes)"
proof (induction nodes)
  case Nil
  then show ?case by simp
next
  case (Cons node nodes)
  show ?case
  proof (cases "at_last (filter (\<lambda>comment. endLine comment < loc_start_line node) cs)")
    case None
    then show ?thesis using Cons.IH by simp
  next
    case (Some c)
    then show ?thesis
      using Cons.IH collect_subsets_append [of cs nodes "[\<lparr>subset = Some (comment_value c), css = generate node\<rparr>]"]
      by simp
  qed
qed

lemma last_filter_index:
  "filter P xs \<noteq> [] \<Longrightarrow>
   \<exists>m < length xs. last (filter P xs) = xs ! m \<and> P (xs ! m) \<and> (\<forall>j < length xs. P (xs ! j) \<longrightarrow> j \<le> m)"
proof (induction xs rule: rev_induct)
  case Nil
  then show ?case by simp
next
  case (snoc x xs)
  show ?case
  proof (cases "P x")
    case True
    have "last (filter P (xs @ [x])) = (xs @ [x]) ! length xs" using True by simp
    moreover have "P ((xs @ [x]) ! length xs)" using True by simp
    moreover have "\<forall>j < length (xs @ [x]). P ((xs @ [x]) ! j) \<longrightarrow> j \<le> length xs" by simp
    ultimately show ?thesis by (intro exI [of _ "length xs"]) simp
  next
    case False
    then have ne: "filter P xs \<noteq> []" using snoc.prems by simp
    from snoc.IH [OF ne] obtain m where m: "m < length xs" "last (filter P xs) = xs ! m"
      "P (xs ! m)" "\<forall>j < length xs. P (xs ! j) \<longrightarrow> j \<le> m" by blast
    have "\<forall>j < length (xs @ [x]). P ((xs @ [x]) ! j) \<longrightarrow> j \<le> m"
    proof (intro allI impI)
      fix j assume j: "j < length (xs @ [x])" and pj: "P ((xs @ [x]) ! j)"
      show "j \<le> m"
      proof (cases "j < length xs")
        case True
        then show ?thesis using m(4) pj by (simp add: nth_append)
      next
        case False
        then have "j = length xs" using j by simp
        then show ?thesis using pj \<open>\<not> P x\<close> by simp
      qed
    qed
    then show ?thesis using m False by (intro exI [of _ m]) (simp add: nth_append)
  qed
qed

lemma nearest_is_last:
  assumes srt: "sorted (map loc_end_line cs)"
    and uniq: "\<exists>!i. nearest_preceding cs node i"
    and near: "nearest_preceding cs node i"
  shows "at_last (filter (\<lambda>comment. endLine comment < loc_start_line node) (map collect_comment cs))
         = Some (collect_comment (cs ! i))"
proof -
  let ?P = "\<lambda>r. loc_end_line r < loc_start_line node"
  have fm: "filter (\<lambda>comment. endLine comment < loc_start_line node) (map collect_comment cs)
            = map collect_comment (filter ?P cs)"
    by (simp add: filter_map comp_def collect_comment_def)
  have "cs ! i \<in> set cs" "?P (cs ! i)"
    using near by (simp_all add: nearest_preceding_def)
  then have ne: "filter ?P cs \<noteq> []"
    by (auto simp: filter_empty_conv)
  from last_filter_index [OF ne] obtain m where m: "m < length cs" "last (filter ?P cs) = cs ! m"
    "?P (cs ! m)" "\<forall>j < length cs. ?P (cs ! j) \<longrightarrow> j \<le> m" by blast
  have "nearest_preceding cs node m"
    unfolding nearest_preceding_def
  proof (intro conjI ballI impI)
    show "m < length cs" by (rule m(1))
    show "?P (cs ! m)" by (rule m(3))
    fix c assume "c \<in> set cs" and pc: "?P c"
    then obtain j where j: "j < length cs" and cj: "c = cs ! j"
      by (auto simp: in_set_conv_nth)
    have pj: "?P (cs ! j)" using pc cj by simp
    then have "j \<le> m" using m(4) j by blast
    then have "map loc_end_line cs ! j \<le> map loc_end_line cs ! m"
      using srt m(1) by (simp add: sorted_nth_mono del: nth_map)
    then show "loc_end_line c \<le> loc_end_line (cs ! m)" using j m(1) cj by simp
  qed
  then have "m = i" using uniq near by blast
  then show ?thesis using fm ne m(2) by (simp add: at_last_def last_map)
qed

lemma split_with_comments:
  "onComment_calls (parse input) \<noteq> [] \<Longrightarrow>
   splitCssIntoSubsets parse input =
     collect_subsets (map collect_comment (onComment_calls (parse input))) (font_face_nodes (parse input)) []"
  by (simp add: splitCssIntoSubsets_def Let_def)

lemma collect_subsets_nearest:
  assumes srt: "sorted (map loc_end_line cs)"
    and uniq: "\<forall>node \<in> set nodes. \<exists>!i. nearest_preceding cs node i"
  shows "collect_subsets (map collect_comment cs) nodes [] =
         map (\<lambda>node. \<lparr>subset = Some (trim (raw_value (cs ! (THE i. nearest_preceding cs node i)))),
                        css = generate node\<rparr>) nodes"
  using uniq
proof (induction nodes)
  case Nil
  then show ?case by simp
next
  case (Cons node nodes)
  have u: "\<exists>!i. nearest_preceding cs node i" using Cons.prems by simp
  then have n: "nearest_preceding cs node (THE i. nearest_preceding cs node i)"
    by (rule theI')
  have rest: "collect_subsets (map collect_comment cs) nodes [] =
         map (\<lambda>node. \<lparr>subset = Some (trim (raw_value (cs ! (THE i. nearest_preceding cs node i)))),
                        css = generate node\<rparr>) nodes"
    using Cons.IH Cons.prems by simp
  have cv: "comment_value (collect_comment r) = trim (raw_value r)" for r
    by (simp add: collect_comment_def)
  show ?case
    using nearest_is_last [OF srt u n] rest
      collect_subsets_append [of "map collect_comment cs" nodes
        "[\<lparr>subset = Some (trim (raw_value (cs ! (THE i. nearest_preceding cs node i)))), css = generate node\<rparr>]"]
    by (simp add: cv)
qed

text \<open>
  C4, as amended: the input has at least one comment, the parser reports the comments
  in document order (their end lines never decrease along the list), and every
  font-face rule has exactly one nearest preceding comment. Then there is one fragment
  per rule, in the order of the rules, and the label of the \<open>k\<close>-th fragment is the
  trimmed text of the nearest preceding comment of the \<open>k\<close>-th rule; its CSS text is the
  text generated for that rule.
\<close>

theorem split_labels_nearest_comment:
  assumes cs: "onComment_calls (parse input) = cs"
    and nodes: "font_face_nodes (parse input) = nodes"
    and ne: "cs \<noteq> []"
    and srt: "sorted (map loc_end_line cs)"
    and uniq: "\<forall>node \<in> set nodes. \<exists>!i. nearest_preceding cs node i"
  shows "length (splitCssIntoSubsets parse input) = length nodes \<and>
         (\<forall>k < length nodes. \<forall>i. nearest_preceding cs (nodes ! k) i \<longrightarrow>
            splitCssIntoSubsets parse input ! k =
              \<lparr>subset = Some (trim (raw_value (cs ! i))), css = generate (nodes ! k)\<rparr>)"
proof -
  have eq: "splitCssIntoSubsets parse input =
         map (\<lambda>node. \<lparr>subset = Some (trim (raw_value (cs ! (THE i. nearest_preceding cs node i)))),
                        css = generate node\<rparr>) nodes"
    using split_with_comments [of parse input] collect_subsets_nearest [OF srt uniq] cs nodes ne
    by simp
  have "splitCssIntoSubsets parse input ! k =
          \<lparr>subset = Some (trim (raw_value (cs ! i))), css = generate (nodes ! k)\<rparr>"
    if k: "k < length nodes" and i: "nearest_preceding cs (nodes ! k) i" for k i
  proof -
    have "\<exists>!i. nearest_preceding cs (nodes ! k) i" using uniq k by simp
    then have "(THE i. nearest_preceding cs (nodes ! k) i) = i" using i by blast
    then show ?thesis using eq k by simp
  qed
  then show ?thesis using eq by simp
qed

lemma nearest_two_0: "nearest_preceding (onComment_calls (sample_parse two_subsets_css))
    (font_face_nodes (sample_parse two_subsets_css) ! 0) i \<longleftrightarrow> i = 0"
  by (auto simp: nearest_preceding_def sample_parse_def less_Suc_eq nth_Cons')

lemma nearest_two_1: "nearest_preceding (onComment_calls (sample_parse two_subsets_css))
    (font_face_nodes (sample_parse two_subsets_css) ! 1) i \<longleftrightarrow> i = 1"
  by (auto simp: nearest_preceding_def sample_parse_def less_Suc_eq nth_Cons' all_conj_distrib)

lemma at_last_orphan:
  "at_last (filter (\<lambda>comment. endLine comment < loc_start_line node) (map collect_comment cs)) = None
   \<longleftrightarrow> orphan cs node"
  by (auto simp: at_last_def orphan_def filter_empty_conv collect_comment_def)

lemma collect_subsets_app_nodes:
  "collect_subsets cs (ns1 @ ns2) [] = collect_subsets cs ns1 [] @ collect_subsets cs ns2 []"
  by (simp add: collect_subsets_concat)

lemma collect_subsets_orphan:
  "orphan cs node \<Longrightarrow> collect_subsets (map collect_comment cs) [node] [] = []"
  using at_last_orphan [of node cs] by simp

lemma length_collect_subsets:
  "length (collect_subsets (map collect_comment cs) nodes []) =
   length (filter (\<lambda>n. \<not> orphan cs n) nodes)"
proof (induction nodes)
  case Nil
  then show ?case by simp
next
  case (Cons node nodes)
  have split: "collect_subsets (map collect_comment cs) (node # nodes) [] =
      collect_subsets (map collect_comment cs) [node] [] @ collect_subsets (map collect_comment cs) nodes []"
    using collect_subsets_app_nodes [of "map collect_comment cs" "[node]" nodes] by simp
  show ?case
  proof (cases "orphan cs node")
    case True
    then show ?thesis using split Cons.IH collect_subsets_orphan by simp
  next
    case False
    then obtain c where "at_last (filter (\<lambda>comment. endLine comment < loc_start_line node) (map collect_comment cs)) = Some c"
      using at_last_orphan [of node cs] by (cases "at_last (filter (\<lambda>comment. endLine comment < loc_start_line node) (map collect_comment cs))") auto
    then have "length (collect_subsets (map collect_comment cs) [node] []) = 1" by simp
    then show ?thesis using split Cons.IH False by simp
  qed
qed

text \<open>
  C5: in an input with at least one comment, a font-face rule that no comment ends
  strictly before is dropped: the result is the result for the same document without
  the rule, and it has one fragment for each of the other rules that has a comment
  before it.
\<close>

theorem split_drops_orphan:
  assumes cs: "onComment_calls (parse input) = cs"
    and ne: "cs \<noteq> []"
    and nodes: "font_face_nodes (parse input) = before @ node # after"
    and orph: "orphan cs node"
    and cs': "onComment_calls (parse input') = cs"
    and nodes': "font_face_nodes (parse input') = before @ after"
  shows "splitCssIntoSubsets parse input = splitCssIntoSubsets parse input' \<and>
         length (splitCssIntoSubsets parse input) =
           length (filter (\<lambda>n. \<not> orphan cs n) (before @ after))"
proof -
  let ?c = "map collect_comment cs"
  have a: "splitCssIntoSubsets parse input = collect_subsets ?c (before @ node # after) []"
    using split_with_comments [of parse input] cs ne nodes by simp
  have b: "splitCssIntoSubsets parse input' = collect_subsets ?c (before @ after) []"
    using split_with_comments [of parse input'] cs' ne nodes' by simp
  have "collect_subsets ?c (before @ node # after) [] =
        collect_subsets ?c before [] @ collect_subsets ?c [node] [] @ collect_subsets ?c after []"
    using collect_subsets_app_nodes [of ?c before "[node] @ after"]
      collect_subsets_app_nodes [of ?c "[node]" after] by simp
  then have "collect_subsets ?c (before @ node # after) [] = collect_subsets ?c (before @ after) []"
    using collect_subsets_orphan [OF orph] collect_subsets_app_nodes [of ?c before after] by simp
  then show ?thesis using a b length_collect_subsets [of cs "before @ after"] by simp
qed

text \<open>Instance of C5: the first rule of the sample stands before the only comment.\<close>

theorem split_drops_orphan_witness:
  "splitCssIntoSubsets sample_parse orphan_css = splitCssIntoSubsets sample_parse orphan_removed_css \<and>
   length (splitCssIntoSubsets sample_parse orphan_css) = 1 \<and>
   length (font_face_nodes (sample_parse orphan_css)) = 2"
proof -
  let ?cs = "[\<lparr>raw_value = '' latin '', loc_end_line = 2\<rparr>]"
  let ?a = "\<lparr>loc_start_line = 1, generate = ''@font-face{font-family:X;src:url(a.woff2)}''\<rparr>"
  let ?b = "\<lparr>loc_start_line = 3, generate = ''@font-face{font-family:X;src:url(b.woff2)}''\<rparr>"
  have ne: "orphan_css \<noteq> orphan_removed_css" "orphan_css \<noteq> two_subsets_css"
    "orphan_removed_css \<noteq> two_subsets_css"
    by (simp_all add: orphan_css_def orphan_removed_css_def two_subsets_css_def)
  have 1: "onComment_calls (sample_parse orphan_css) = ?cs"
    and 2: "font_face_nodes (sample_parse orphan_css) = [] @ ?a # [?b]"
    and 3: "onComment_calls (sample_parse orphan_removed_css) = ?cs"
    and 4: "font_face_nodes (sample_parse orphan_removed_css) = [] @ [?b]"
    using ne by (simp_all add: sample_parse_def sample_parse_def)
  have 5: "orphan ?cs ?a" by (simp add: orphan_def)
  have 6: "\<not> orphan ?cs ?b" by (simp add: orphan_def)
  have 7: "?cs \<noteq> []" by simp
  from split_drops_orphan [OF 1 7 2 5 3 4]
  have eq: "splitCssIntoSubsets sample_parse orphan_css = splitCssIntoSubsets sample_parse orphan_removed_css"
    and len: "length (splitCssIntoSubsets sample_parse orphan_css) =
           length (filter (\<lambda>n. \<not> orphan ?cs n) ([] @ [?b]))"
    by blast+
  have "length (splitCssIntoSubsets sample_parse orphan_css) = 1"
    using len 6 by simp
  then show ?thesis using eq 2 by simp
qed

text \<open>Instance of C6.\<close>

theorem split_no_comments_witness:
  "onComment_calls (sample_parse plain_css) = [] \<and>
   splitCssIntoSubsets sample_parse plain_css = [\<lparr>subset = None, css = plain_css\<rparr>]"
proof -
  have ne: "plain_css \<noteq> two_subsets_css" "plain_css \<noteq> orphan_css"
    "plain_css \<noteq> orphan_removed_css" "plain_css \<noteq> one_subset_css"
    by (simp_all add: plain_css_def two_subsets_css_def orphan_css_def orphan_removed_css_def
        one_subset_css_def)
  have 1: "onComment_calls (sample_parse plain_css) = []"
    using ne by (simp add: sample_parse_def)
  show ?thesis using 1 split_no_comments [of sample_parse plain_css] by simp
qed

text \<open>Instance of C4 as amended: the two-subset document of the specification.\<close>

theorem split_labels_nearest_comment_witness:
  "splitCssIntoSubsets sample_parse two_subsets_css =
     [\<lparr>subset = Some ''latin'', css = ''@font-face{font-family:X;src:url(a.woff2)}''\<rparr>,
      \<lparr>subset = Some ''cyrillic'', css = ''@font-face{font-family:X;src:url(b.woff2)}''\<rparr>]"
proof -
  let ?cs = "onComment_calls (sample_parse two_subsets_css)"
  let ?nodes = "font_face_nodes (sample_parse two_subsets_css)"
  have cs: "?cs = [\<lparr>raw_value = '' latin '', loc_end_line = 1\<rparr>,
            \<lparr>raw_value = '' cyrillic '', loc_end_line = 3\<rparr>]"
    and nodes: "?nodes = [\<lparr>loc_start_line = 2, generate = ''@font-face{font-family:X;src:url(a.woff2)}''\<rparr>,
            \<lparr>loc_start_line = 4, generate = ''@font-face{font-family:X;src:url(b.woff2)}''\<rparr>]"
    by (simp_all add: sample_parse_def)
  have ne: "?cs \<noteq> []" and srt: "sorted (map loc_end_line ?cs)"
    using cs by simp_all
  have uniq: "\<forall>node \<in> set ?nodes. \<exists>!i. nearest_preceding ?cs node i"
  proof
    fix node assume "node \<in> set ?nodes"
    then have "node = ?nodes ! 0 \<or> node = ?nodes ! 1" using nodes by auto
    then show "\<exists>!i. nearest_preceding ?cs node i"
      using nearest_two_0 nearest_two_1 by auto
  qed
  have t: "trim '' latin '' = ''latin''" "trim '' cyrillic '' = ''cyrillic''"
    by (simp_all add: trim_def isWhiteSpace_def)
  from split_labels_nearest_comment [of sample_parse two_subsets_css ?cs ?nodes, OF refl refl ne srt uniq]
  have len: "length (splitCssIntoSubsets sample_parse two_subsets_css) = length ?nodes"
    and nth: "\<And>k i. k < length ?nodes \<Longrightarrow> nearest_preceding ?cs (?nodes ! k) i \<Longrightarrow>
            splitCssIntoSubsets sample_parse two_subsets_css ! k =
              \<lparr>subset = Some (trim (raw_value (?cs ! i))), css = generate (?nodes ! k)\<rparr>"
    by blast+
  have n0: "splitCssIntoSubsets sample_parse two_subsets_css ! 0 =
       \<lparr>subset = Some ''latin'', css = ''@font-face{font-family:X;src:url(a.woff2)}''\<rparr>"
    using nth [of 0 0] nearest_two_0 [of 0] cs nodes t by simp
  have n1: "splitCssIntoSubsets sample_parse two_subsets_css ! 1 =
       \<lparr>subset = Some ''cyrillic'', css = ''@font-face{font-family:X;src:url(b.woff2)}''\<rparr>"
    using nth [of 1 1] nearest_two_1 [of 1] cs nodes t by simp
  have l2: "length (splitCssIntoSubsets sample_parse two_subsets_css) = 2"
    using len nodes by simp
  show ?thesis
  proof (rule nth_equalityI)
    show "length (splitCssIntoSubsets sample_parse two_subsets_css) = length [\<lparr>subset = Some ''latin'', css = ''@font-face{font-family:X;src:url(a.woff2)}''\<rparr>,
      \<lparr>subset = Some ''cyrillic'', css = ''@font-face{font-family:X;src:url(b.woff2)}''\<rparr>]"
      using l2 by simp
  next
    fix i assume "i < length (splitCssIntoSubsets sample_parse two_subsets_css)"
    then have "i = 0 \<or> i = 1" using l2 by auto
    then show "splitCssIntoSubsets sample_parse two_subsets_css ! i = [\<lparr>subset = Some ''latin'', css = ''@font-face{font-family:X;src:url(a.woff2)}''\<rparr>,
      \<lparr>subset = Some ''cyrillic'', css = ''@font-face{font-family:X;src:url(b.woff2)}''\<rparr>] ! i"
      using n0 n1 by auto
  qed
qed

text \<open>
  C4 as stated fails on an input with no comment and no font-face rule: every rule (there
  is none) has its comment, and the result is one fragment, not zero.
\<close>

theorem split_fragment_count_counterexample:
  "sorted (map loc_end_line (onComment_calls (sample_parse ''''))) \<and>
   list_all (\<lambda>node. \<exists>!i. nearest_preceding (onComment_calls (sample_parse '''')) node i)
     (font_face_nodes (sample_parse '''')) \<and>
   length (font_face_nodes (sample_parse '''')) = 0 \<and>
   splitCssIntoSubsets sample_parse '''' = [\<lparr>subset = None, css = ''''\<rparr>]"
  by (simp add: sample_parse_def splitCssIntoSubsets_def two_subsets_css_def orphan_css_def
      orphan_removed_css_def one_subset_css_def plain_css_def)

section \<open>Properties of the axis-name comparator\<close>

lemma lower_not_upper_char: "CHR ''a'' \<le> c \<Longrightarrow> \<not> c \<le> CHR ''Z''"
  by (simp add: less_eq_char_def)

lemma toLowerCase_char_lower: "CHR ''a'' \<le> c \<Longrightarrow> toLowerCase_char c = c"
  by (simp add: toLowerCase_char_def lower_not_upper_char)

lemma toLowerCase_char_upper:
  assumes "CHR ''A'' \<le> c" "c \<le> CHR ''Z''"
  shows "toLowerCase_char c \<noteq> c"
proof -
  have b: "(of_char c :: nat) \<le> 90" using assms(2) by (simp add: less_eq_char_def)
  then have "of_char (char_of (of_char c + (32 :: nat))) = (of_char c + 32 :: nat)"
    by (simp add: of_char_of)
  then have "char_of (of_char c + (32 :: nat)) \<noteq> c"
    by (metis add_cancel_right_right zero_neq_numeral)
  then show ?thesis using assms by (simp add: toLowerCase_char_def)
qed

lemma isLowercase_lower: "starts_lowercase a \<Longrightarrow> charAt a 0 = toLowerCase (charAt a 0)"
  by (cases a) (simp_all add: starts_lowercase_def charAt_def toLowerCase_def toLowerCase_char_lower)

lemma isLowercase_upper:
  assumes "starts_uppercase a"
  shows "charAt a 0 \<noteq> toLowerCase (charAt a 0)"
proof (cases a)
  case Nil
  then show ?thesis using assms by (simp add: starts_uppercase_def)
next
  case (Cons c cs)
  then have "CHR ''A'' \<le> c" "c \<le> CHR ''Z''"
    using assms by (simp_all add: starts_uppercase_def)
  then have "c \<noteq> toLowerCase_char c"
    using toLowerCase_char_upper [of c] by simp
  then show ?thesis using Cons by (simp add: charAt_def toLowerCase_def)
qed

lemma starts_samples:
  "starts_lowercase ''wdth''" "starts_uppercase ''Wdth''" "starts_lowercase ''zzz''" "starts_uppercase ''AAA''"
  "starts_lowercase ''ital''" "starts_lowercase ''wght''"
  by (simp_all add: starts_lowercase_def starts_uppercase_def less_eq_char_def)

lemma starts_exclusive: "starts_lowercase x \<Longrightarrow> \<not> starts_uppercase x"
  by (cases x) (auto simp: starts_lowercase_def starts_uppercase_def dest: lower_not_upper_char)

lemma googleFlavoredSorting_mixed:
  assumes "starts_lowercase x" "starts_uppercase y"
  shows "googleFlavoredSorting lc x y = - 1" "googleFlavoredSorting lc y x = 1"
  using isLowercase_lower [OF assms(1)] isLowercase_upper [OF assms(2)]
  by (simp_all add: googleFlavoredSorting_def Number_def)

lemma googleFlavoredSorting_same:
  assumes "starts_lowercase x \<and> starts_lowercase y \<or> starts_uppercase x \<and> starts_uppercase y"
  shows "googleFlavoredSorting lc x y = lc x y"
proof -
  from assms have "(charAt x 0 = toLowerCase (charAt x 0)) = (charAt y 0 = toLowerCase (charAt y 0))"
    using isLowercase_lower [of x] isLowercase_lower [of y] isLowercase_upper [of x]
      isLowercase_upper [of y]
    by blast
  then show ?thesis by (simp add: googleFlavoredSorting_def)
qed

lemma insert_by_upper:
  assumes "starts_uppercase x" "\<forall>y \<in> set us. starts_uppercase y"
  shows "insert_by (googleFlavoredSorting lc) x us = insert_by lc x us"
  using assms(2)
proof (induction us)
  case Nil
  then show ?case by simp
next
  case (Cons u us)
  then have "googleFlavoredSorting lc x u = lc x u"
    using assms(1) googleFlavoredSorting_same [of x u lc] by simp
  then show ?case using Cons by simp
qed

lemma insert_by_lower_front:
  assumes "starts_lowercase x" "\<forall>y \<in> set ls. starts_lowercase y" "\<forall>y \<in> set us. starts_uppercase y"
  shows "insert_by (googleFlavoredSorting lc) x (ls @ us) = insert_by lc x ls @ us"
  using assms(2)
proof (induction ls)
  case Nil
  show ?case
  proof (cases us)
    case Nil
    then show ?thesis by simp
  next
    case (Cons u us')
    then have "googleFlavoredSorting lc x u = - 1"
      using assms(1,3) googleFlavoredSorting_mixed(1) [of x u lc] by simp
    then show ?thesis using Cons by simp
  qed
next
  case (Cons l ls)
  then have "googleFlavoredSorting lc x l = lc x l"
    using assms(1) googleFlavoredSorting_same [of x l lc] by simp
  then show ?case using Cons by simp
qed

lemma insert_by_upper_back:
  assumes "starts_uppercase x" "\<forall>y \<in> set ls. starts_lowercase y" "\<forall>y \<in> set us. starts_uppercase y"
  shows "insert_by (googleFlavoredSorting lc) x (ls @ us) = ls @ insert_by lc x us"
  using assms(2)
proof (induction ls)
  case Nil
  then show ?case using insert_by_upper [OF assms(1,3)] by simp
next
  case (Cons l ls)
  then have "googleFlavoredSorting lc x l = 1"
    using assms(1) googleFlavoredSorting_mixed(2) [of l x lc] by simp
  then show ?case using Cons by simp
qed

lemma set_insert_by: "set (insert_by cmp x xs) = insert x (set xs)"
  by (induction xs) auto

lemma set_sort_by: "set (sort_by cmp xs) = set xs"
  by (induction xs) (simp_all add: sort_by_def set_insert_by)

lemma sort_by_Cons: "sort_by cmp (x # xs) = insert_by cmp x (sort_by cmp xs)"
  by (simp add: sort_by_def)

lemma sort_by_classes:
  assumes "\<forall>x \<in> set xs. starts_lowercase x \<or> starts_uppercase x"
  shows "sort_by (googleFlavoredSorting lc) xs =
         sort_by lc (filter starts_lowercase xs) @ sort_by lc (filter starts_uppercase xs)"
  using assms
proof (induction xs)
  case Nil
  then show ?case by (simp add: sort_by_def)
next
  case (Cons x xs)
  let ?ls = "sort_by lc (filter starts_lowercase xs)"
  let ?us = "sort_by lc (filter starts_uppercase xs)"
  have ih: "sort_by (googleFlavoredSorting lc) xs = ?ls @ ?us" using Cons by simp
  have ls: "\<forall>y \<in> set ?ls. starts_lowercase y" and us: "\<forall>y \<in> set ?us. starts_uppercase y"
    by (simp_all add: set_sort_by)
  show ?case
  proof (cases "starts_lowercase x")
    case True
    then have "\<not> starts_uppercase x" by (rule starts_exclusive)
    then show ?thesis
      using True ih insert_by_lower_front [OF True ls us, of lc] by (simp add: sort_by_Cons)
  next
    case False
    then have up: "starts_uppercase x" using Cons.prems by simp
    show ?thesis
      using False up ih insert_by_upper_back [OF up ls us, of lc] by (simp add: sort_by_Cons)
  qed
qed

text \<open>
  C2, as amended: a name that starts with a lowercase letter is ordered before a name
  that starts with an uppercase letter, whatever the letters are: the comparator is
  negative on the pair, positive on the swapped pair, and sorting puts the lowercase-led
  name first. When both names start with a lowercase letter, or both with an uppercase
  letter, the comparator returns what the host's \<^verbatim>\<open>localeCompare\<close> (\<open>lc\<close>) returns for
  them. So the sorted list of names that start with a letter is the lowercase-led names in
  the order of \<^verbatim>\<open>localeCompare\<close>, followed by the uppercase-led names in that order.
\<close>

theorem googleFlavoredSorting_order:
  "(starts_lowercase a \<and> starts_uppercase b \<longrightarrow>
      googleFlavoredSorting lc a b < 0 \<and> googleFlavoredSorting lc b a > 0 \<and>
      sort_by (googleFlavoredSorting lc) [b, a] = [a, b] \<and>
      sort_by (googleFlavoredSorting lc) [a, b] = [a, b]) \<and>
   (starts_lowercase a \<and> starts_lowercase b \<or> starts_uppercase a \<and> starts_uppercase b \<longrightarrow>
      googleFlavoredSorting lc a b = lc a b) \<and>
   ((\<forall>x \<in> set xs. starts_lowercase x \<or> starts_uppercase x) \<longrightarrow>
      sort_by (googleFlavoredSorting lc) xs =
        sort_by lc (filter starts_lowercase xs) @ sort_by lc (filter starts_uppercase xs)) \<and>
   googleFlavoredSorting lc ''wdth'' ''Wdth'' < 0 \<and>
   googleFlavoredSorting lc ''zzz'' ''AAA'' < 0"
proof -
  have mixed: "googleFlavoredSorting lc x y = - 1 \<and> googleFlavoredSorting lc y x = 1"
    if "starts_lowercase x" "starts_uppercase y" for x y
    using isLowercase_lower [OF that(1)] isLowercase_upper [OF that(2)]
    by (simp add: googleFlavoredSorting_def Number_def)
  have same_l: "googleFlavoredSorting lc x y = lc x y"
    if "starts_lowercase x" "starts_lowercase y" for x y
    using isLowercase_lower [OF that(1)] isLowercase_lower [OF that(2)]
    by (simp add: googleFlavoredSorting_def)
  have same_u: "googleFlavoredSorting lc x y = lc x y"
    if "starts_uppercase x" "starts_uppercase y" for x y
    using isLowercase_upper [OF that(1)] isLowercase_upper [OF that(2)]
    by (simp add: googleFlavoredSorting_def)
  have pairs: "starts_lowercase a \<and> starts_uppercase b \<longrightarrow>
      googleFlavoredSorting lc a b < 0 \<and> googleFlavoredSorting lc b a > 0 \<and>
      sort_by (googleFlavoredSorting lc) [b, a] = [a, b] \<and>
      sort_by (googleFlavoredSorting lc) [a, b] = [a, b]"
    using mixed [of a b] by (auto simp: sort_by_def)
  have same: "starts_lowercase a \<and> starts_lowercase b \<or> starts_uppercase a \<and> starts_uppercase b \<longrightarrow>
      googleFlavoredSorting lc a b = lc a b"
    using same_l [of a b] same_u [of a b] by blast
  have lists: "(\<forall>x \<in> set xs. starts_lowercase x \<or> starts_uppercase x) \<longrightarrow>
      sort_by (googleFlavoredSorting lc) xs =
        sort_by lc (filter starts_lowercase xs) @ sort_by lc (filter starts_uppercase xs)"
    using sort_by_classes [of xs lc] by blast
  have ex: "googleFlavoredSorting lc ''wdth'' ''Wdth'' < 0" "googleFlavoredSorting lc ''zzz'' ''AAA'' < 0"
    using mixed [of "''wdth''" "''Wdth''"] mixed [of "''zzz''" "''AAA''"] starts_samples by simp_all
  show ?thesis using pairs same lists ex by blast
qed

lemma codeUnitCompare_samples: "codeUnitCompare ''ital'' ''wght'' = - 1" "codeUnitCompare ''opsz'' ''wght'' = - 1"
  "codeUnitCompare ''ital'' ''opsz'' = - 1"  "codeUnitCompare ''wght'' ''ital'' = 1"
  by (simp_all add: codeUnitCompare_def less_char_def)

lemma hostLocaleCompare_samples:
  "hostLocaleCompare ''aB'' ''ab'' = 1" "hostLocaleCompare ''ab'' ''aB'' = - 1"
  "hostLocaleCompare ''GRAD'' ''Grad'' = 1" "hostLocaleCompare ''Grad'' ''GRAD'' = - 1"
  "hostLocaleCompare ''ital'' ''wght'' = - 1" "hostLocaleCompare ''wght'' ''ital'' = 1"
  "hostLocaleCompare ''GRAD'' ''XTRA'' = - 1" "hostLocaleCompare ''XTRA'' ''GRAD'' = 1"
  by (simp_all add: hostLocaleCompare_def toLowerCase_def toLowerCase_char_def less_eq_char_def
      less_char_def)

text \<open>
  Instance of C2 as amended, with the collation of the usual hosts: four axis names, two
  of each class.
\<close>

theorem googleFlavoredSorting_order_witness:
  "googleFlavoredSorting hostLocaleCompare ''wght'' ''GRAD'' < 0 \<and>
   googleFlavoredSorting hostLocaleCompare ''ital'' ''wght'' = - 1 \<and>
   sort_by (googleFlavoredSorting hostLocaleCompare) [''XTRA'', ''wght'', ''GRAD'', ''ital''] =
     [''ital'', ''wght'', ''GRAD'', ''XTRA'']"
proof -
  have cl: "starts_lowercase ''wght''" "starts_lowercase ''ital''" "starts_uppercase ''GRAD''"
    "starts_uppercase ''XTRA''" "\<not> starts_lowercase ''GRAD''" "\<not> starts_lowercase ''XTRA''"
    "\<not> starts_uppercase ''wght''" "\<not> starts_uppercase ''ital''"
    by (simp_all add: starts_lowercase_def starts_uppercase_def less_eq_char_def)
  have 1: "googleFlavoredSorting hostLocaleCompare ''wght'' ''GRAD'' < 0"
    using googleFlavoredSorting_order [of "''wght''" "''GRAD''" hostLocaleCompare "[]"] cl by simp
  have 2: "googleFlavoredSorting hostLocaleCompare ''ital'' ''wght'' = - 1"
    using googleFlavoredSorting_order [of "''ital''" "''wght''" hostLocaleCompare "[]"] cl
      hostLocaleCompare_samples by simp
  have "sort_by (googleFlavoredSorting hostLocaleCompare) [''XTRA'', ''wght'', ''GRAD'', ''ital''] =
        sort_by hostLocaleCompare [''wght'', ''ital''] @ sort_by hostLocaleCompare [''XTRA'', ''GRAD'']"
    using googleFlavoredSorting_order [of "''wght''" "''GRAD''" hostLocaleCompare
        "[''XTRA'', ''wght'', ''GRAD'', ''ital'']"] cl
    by simp
  then have 3: "sort_by (googleFlavoredSorting hostLocaleCompare) [''XTRA'', ''wght'', ''GRAD'', ''ital''] =
     [''ital'', ''wght'', ''GRAD'', ''XTRA'']"
    using hostLocaleCompare_samples by (simp add: sort_by_def)
  show ?thesis using 1 2 3 by simp
qed

text \<open>
  C2 as stated fails within a case class: the names \<^verbatim>\<open>aB\<close> and \<^verbatim>\<open>ab\<close> both start with a
  lowercase letter, and \<^verbatim>\<open>GRAD\<close> and \<^verbatim>\<open>Grad\<close> both with an uppercase one. In the
  lexicographic order of the code units \<^verbatim>\<open>aB\<close> stands before \<^verbatim>\<open>ab\<close> and \<^verbatim>\<open>GRAD\<close> before
  \<^verbatim>\<open>Grad\<close>; the comparator, which asks the host, puts them the other way round.
\<close>

theorem googleFlavoredSorting_lexicographic_counterexample:
  "starts_lowercase ''aB'' \<and> starts_lowercase ''ab'' \<and> ''aB'' < ''ab'' \<and>
   googleFlavoredSorting hostLocaleCompare ''aB'' ''ab'' > 0 \<and>
   sort_by (googleFlavoredSorting hostLocaleCompare) [''aB'', ''ab''] = [''ab'', ''aB''] \<and>
   starts_uppercase ''GRAD'' \<and> starts_uppercase ''Grad'' \<and> ''GRAD'' < ''Grad'' \<and>
   googleFlavoredSorting hostLocaleCompare ''GRAD'' ''Grad'' > 0 \<and>
   sort_by (googleFlavoredSorting hostLocaleCompare) [''GRAD'', ''Grad''] = [''Grad'', ''GRAD'']"
proof -
  have cl: "starts_lowercase ''aB''" "starts_lowercase ''ab''" "starts_uppercase ''GRAD''"
    "starts_uppercase ''Grad''"
    by (simp_all add: starts_lowercase_def starts_uppercase_def less_eq_char_def)
  have lex: "''aB'' < ''ab''" "''GRAD'' < ''Grad''"
    by (simp_all add: less_char_def)
  have g: "googleFlavoredSorting hostLocaleCompare ''aB'' ''ab'' = 1"
    "googleFlavoredSorting hostLocaleCompare ''GRAD'' ''Grad'' = 1"
    using googleFlavoredSorting_same [of "''aB''" "''ab''" hostLocaleCompare]
      googleFlavoredSorting_same [of "''GRAD''" "''Grad''" hostLocaleCompare]
      cl hostLocaleCompare_samples by simp_all
  show ?thesis using cl lex g by (simp add: sort_by_def)
qed

section \<open>Properties of the variant axis resolver\<close>

lemma length_insert_by: "length (insert_by cmp x xs) = Suc (length xs)"
  by (induction xs) auto

lemma length_sort_by: "length (sort_by cmp xs) = length xs"
  by (induction xs) (simp_all add: sort_by_def length_insert_by)

lemma join_Cons: "join sep (x # xs) = x @ concat (map ((@) sep) xs)"
  by (induction xs arbitrary: x) simp_all

lemma length_concat_const:
  "length (concat (map (\<lambda>v. map (f v) ys) xs)) = length xs * length ys"
  by (induction xs) simp_all

lemma resolve_loop_product:
  assumes "list_all2 (\<lambda>a vs. valueOf a = Inr (StringArray vs) \<and> vs \<noteq> []) names vals"
    and "rv \<noteq> []"
  shows "\<exists>rv'. resolve_loop valueOf names (ra, StringArray rv) = Inr (ra @ names, StringArray rv') \<and>
           length rv' = length rv * prod_list (map length vals) \<and>
           (\<forall>t \<in> set rv'. \<exists>p \<in> set rv. \<exists>toks.
               list_all2 (\<lambda>tok vs. tok \<in> set vs) toks vals \<and>
               t = p @ concat (map ((@) '','') toks))"
  using assms
proof (induction names arbitrary: vals ra rv)
  case Nil
  then show ?case by simp
next
  case (Cons a names)
  from Cons.prems(1) obtain vs vals' where vals: "vals = vs # vals'"
    and a: "valueOf a = Inr (StringArray vs)" "vs \<noteq> []"
    and rest: "list_all2 (\<lambda>a vs. valueOf a = Inr (StringArray vs) \<and> vs \<noteq> []) names vals'"
    by (auto simp: list_all2_Cons1)
  let ?next = "sort (concat (map (\<lambda>v. map (\<lambda>o'. join '','' [v, o']) vs) rv))"
  have len: "length ?next = length rv * length vs"
    by (simp add: length_concat_const)
  then have ne: "?next \<noteq> []" using Cons.prems(2) a(2) by (metis length_0_conv mult_is_0)
  have step: "resolve_loop valueOf (a # names) (ra, StringArray rv) =
              resolve_loop valueOf names (ra @ [a], StringArray ?next)"
    using a Cons.prems(2) by (simp add: value_length_def)
  from Cons.IH [OF rest ne, of "ra @ [a]"] obtain rv' where
    r: "resolve_loop valueOf names (ra @ [a], StringArray ?next) = Inr ((ra @ [a]) @ names, StringArray rv')"
    and l: "length rv' = length ?next * prod_list (map length vals')"
    and t: "\<forall>t \<in> set rv'. \<exists>p \<in> set ?next. \<exists>toks.
               list_all2 (\<lambda>tok vs. tok \<in> set vs) toks vals' \<and>
               t = p @ concat (map ((@) '','') toks)"
    by blast
  have "\<exists>p \<in> set rv. \<exists>toks. list_all2 (\<lambda>tok vs. tok \<in> set vs) toks vals \<and>
            t = p @ concat (map ((@) '','') toks)" if "t \<in> set rv'" for t
  proof -
    from t that obtain q toks where q: "q \<in> set ?next"
      and toks: "list_all2 (\<lambda>tok vs. tok \<in> set vs) toks vals'"
      and teq: "t = q @ concat (map ((@) '','') toks)" by blast
    from q obtain v x where v: "v \<in> set rv" and x: "x \<in> set vs" and qeq: "q = v @ '','' @ x"
      by auto
    have "list_all2 (\<lambda>tok vs. tok \<in> set vs) (x # toks) vals"
      using toks x vals by simp
    moreover have "t = v @ concat (map ((@) '','') (x # toks))"
      using teq qeq by simp
    ultimately show ?thesis using v by blast
  qed
  then have tup: "\<forall>t \<in> set rv'. \<exists>p \<in> set rv. \<exists>toks.
               list_all2 (\<lambda>tok vs. tok \<in> set vs) toks vals \<and>
               t = p @ concat (map ((@) '','') toks)"
    by blast
  have res: "resolve_loop valueOf (a # names) (ra, StringArray rv) = Inr (ra @ a # names, StringArray rv')"
    using step r by simp
  have l': "length rv' = length rv * prod_list (map length vals)"
    using l len vals by simp
  show ?case using res l' tup by blast
qed

lemma ex_list_all2: "(\<forall>x \<in> set xs. \<exists>y. P x y) \<Longrightarrow> \<exists>ys. list_all2 P xs ys"
proof (induction xs)
  case Nil
  then show ?case by simp
next
  case (Cons x xs)
  then obtain y ys where "P x y" "list_all2 P xs ys" by auto
  then have "list_all2 P (x # xs) (y # ys)" by simp
  then show ?case by blast
qed

lemma lookup_axisValue_nonempty:
  assumes "ws \<noteq> []" "ss \<noteq> []" "\<forall>vs \<in> snd ` set ov. vs \<noteq> []"
    and "\<forall>name \<in> fst ` set ov. \<not> inherited_name name"
    and "a \<in> set (active_axes lc ov)"
  shows "\<exists>vs. lookup_axisValue ws ss ov a = Inr (StringArray vs) \<and> vs \<noteq> []"
proof -
  have mem: "a = ''wght'' \<or> a = ''ital'' \<or> a \<in> fst ` set ov"
    using assms(5) by (auto simp: active_axes_def set_sort_by)
  show ?thesis
  proof (cases "a = ''wght'' \<or> a = ''ital''")
    case True
    then show ?thesis using assms(1,2) by (auto simp: lookup_axisValue_def)
  next
    case False
    then have own: "a \<in> fst ` set ov" using mem by blast
    then have "\<not> inherited_name a" using assms(4) by blast
    then have proto: "map_of Object_prototype a = None"
      by (simp add: inherited_name_def map_of_eq_None_iff)
    from own obtain es where es: "map_of ov a = Some es"
      by (metis map_of_eq_None_iff not_Some_eq)
    then have "(a, es) \<in> set ov" by (rule map_of_SomeD)
    then have "es \<noteq> []" using assms(3) by force
    then show ?thesis using False es proto by (simp add: lookup_axisValue_def)
  qed
qed

text \<open>
  The fold on the inputs that the read of line 99 gets right: when the weight list, the
  style list and every override list are non-empty, and no override axis has a name that
  every object inherits, the loop ends with the sorted axis names as \<^verbatim>\<open>resolvedAxes\<close>,
  and with as many variants as the product of the sizes of the axis value lists \<open>vals\<close>,
  taken in the order of the axes. Every variant is the comma-join of one token per axis,
  the \<open>i\<close>-th token taken from the value list of the \<open>i\<close>-th axis.
\<close>

theorem resolveAxes_product:
  assumes "ws \<noteq> []" "ss \<noteq> []" "\<forall>vs \<in> snd ` set ov. vs \<noteq> []"
    and "\<forall>name \<in> fst ` set ov. \<not> inherited_name name"
  shows "\<exists>vals variants.
           list_all2 (\<lambda>a vs. lookup_axisValue ws ss ov a = Inr (StringArray vs))
             (active_axes lc ov) vals \<and>
           resolveAxes lc ws ss ov = Inr (active_axes lc ov, StringArray variants) \<and>
           length variants = prod_list (map length vals) \<and>
           (\<forall>t \<in> set variants. \<exists>toks.
               length toks = length (active_axes lc ov) \<and>
               list_all2 (\<lambda>tok vs. tok \<in> set vs) toks vals \<and> t = join '','' toks)"
proof -
  let ?f = "lookup_axisValue ws ss ov"
  let ?P = "\<lambda>a vs. ?f a = Inr (StringArray vs) \<and> vs \<noteq> []"
  have "\<forall>a \<in> set (active_axes lc ov). \<exists>vs. ?P a vs"
    using lookup_axisValue_nonempty [OF assms] by blast
  then obtain vals where all: "list_all2 ?P (active_axes lc ov) vals"
    using ex_list_all2 [of "active_axes lc ov" ?P] by blast
  have "length (active_axes lc ov) = Suc (Suc (length ov))"
    by (simp add: active_axes_def length_sort_by)
  then obtain a names where names: "active_axes lc ov = a # names"
    by (cases "active_axes lc ov") auto
  from all names obtain v vals' where vals: "vals = v # vals'"
    and a: "?f a = Inr (StringArray v)" "v \<noteq> []"
    and rest: "list_all2 ?P names vals'"
    by (auto simp: list_all2_Cons1)
  from resolve_loop_product [OF rest a(2), of "[a]"] obtain rv' where
    r: "resolve_loop ?f names ([a], StringArray v) = Inr ([a] @ names, StringArray rv')"
    and l: "length rv' = length v * prod_list (map length vals')"
    and t: "\<forall>t \<in> set rv'. \<exists>p \<in> set v. \<exists>toks.
               list_all2 (\<lambda>tok vs. tok \<in> set vs) toks vals' \<and>
               t = p @ concat (map ((@) '','') toks)"
    by blast
  have res: "resolveAxes lc ws ss ov = Inr (active_axes lc ov, StringArray rv')"
    using r a(1) names by (simp add: resolveAxes_def value_length_def)
  have len: "length rv' = prod_list (map length vals)"
    using l vals by simp
  have tup: "\<exists>toks. length toks = length (active_axes lc ov) \<and>
            list_all2 (\<lambda>tok vs. tok \<in> set vs) toks vals \<and> t = join '','' toks"
    if "t \<in> set rv'" for t
  proof -
    from t that obtain p toks where p: "p \<in> set v"
      and toks: "list_all2 (\<lambda>tok vs. tok \<in> set vs) toks vals'"
      and teq: "t = p @ concat (map ((@) '','') toks)" by blast
    have "list_all2 (\<lambda>tok vs. tok \<in> set vs) (p # toks) vals" using p toks vals by simp
    moreover have "t = join '','' (p # toks)" using teq join_Cons [of "'',''" p toks] by simp
    moreover have "length (p # toks) = length (active_axes lc ov)"
      using toks rest names by (simp add: list_all2_lengthD)
    ultimately show ?thesis by blast
  qed
  have all': "list_all2 (\<lambda>a vs. ?f a = Inr (StringArray vs)) (active_axes lc ov) vals"
    using all by (rule list_all2_mono) simp
  show ?thesis using all' res len tup by blast
qed

lemma sample_axes:
  "active_axes codeUnitCompare [(''wdth'', [Pair ''75'' ''100''])] = [''ital'', ''wdth'', ''wght'']"
  by (simp add: active_axes_def sort_by_def googleFlavoredSorting_def charAt_def toLowerCase_def
      toLowerCase_char_def less_eq_char_def Number_def codeUnitCompare_def less_char_def)

lemma sample_resolve:
  "resolveAxes codeUnitCompare [''400'', ''700''] [''0'', ''1''] [(''wdth'', [Pair ''75'' ''100''])] =
     Inr ([''ital'', ''wdth'', ''wght''],
          StringArray [''0,75..100,400'', ''0,75..100,700'', ''1,75..100,400'', ''1,75..100,700''])"
  by (simp add: resolveAxes_def sample_axes lookup_axisValue_def render_entry_def
      value_length_def Object_prototype_def less_eq_char_def less_char_def)

lemma resolveAxes_empty_opsz:
  "resolveAxes codeUnitCompare [''400''] [''0''] [(''opsz'', [])] =
     Inr ([''ital'', ''opsz'', ''wght''], StringArray [''400''])"
  by (simp add: resolveAxes_def active_axes_def sort_by_def googleFlavoredSorting_def charAt_def
      toLowerCase_def toLowerCase_char_def less_eq_char_def Number_def codeUnitCompare_def
      less_char_def lookup_axisValue_def render_entry_def value_length_def Object_prototype_def)

lemma resolveAxes_constructor:
  "resolveAxes codeUnitCompare [''400''] [''0''] [(''constructor'', [Single ''1''])] = Inl TypeError"
  by (simp add: resolveAxes_def active_axes_def sort_by_def googleFlavoredSorting_def charAt_def
      toLowerCase_def toLowerCase_char_def less_eq_char_def Number_def codeUnitCompare_def
      less_char_def lookup_axisValue_def render_entry_def value_length_def Object_prototype_def)

section \<open>Properties of the resolution orchestrator\<close>

lemma face_priority_set_priority: "face_priority (set_priority p f) = Some p"
  by (simp add: face_priority_def set_priority_def)

lemma flavor_faces_priority:
  "f \<in> set (flavor_faces env wanted p rawCss) \<Longrightarrow> face_priority f = Some p"
  by (auto simp: flavor_faces_def Let_def face_priority_set_priority)

lemma fetch_loop_answers:
  "fetch_loop env wanted request_for agents p acc w = (Inr faces, w') \<Longrightarrow>
   \<exists>reqs csss. map (\<lambda>(extension, agent). request_for agent) agents = map Inr reqs \<and>
               map (fetch env) reqs = map Some csss"
proof (induction agents arbitrary: p acc w)
  case Nil
  then show ?case by simp
next
  case (Cons a agents)
  obtain extension agent where a: "a = (extension, agent)" by (cases a)
  show ?case
  proof (cases "request_for agent")
    case (Inl e)
    then show ?thesis using Cons.prems a by simp
  next
    case (Inr req)
    show ?thesis
    proof (cases "fetch env req")
      case None
      then show ?thesis using Cons.prems a Inr by (simp add: Let_def)
    next
      case (Some rawCss)
      then have "fetch_loop env wanted request_for agents (p + 1)
                   (acc @ flavor_faces env wanted p rawCss)
                   (w\<lparr>requests := requests w @ [req]\<rparr>) = (Inr faces, w')"
        using Cons.prems a Inr by (simp add: Let_def)
      from Cons.IH [OF this] obtain reqs csss where
        "map (\<lambda>(extension, agent). request_for agent) agents = map Inr reqs"
        "map (fetch env) reqs = map Some csss" by blast
      then have "map (\<lambda>(extension, agent). request_for agent) (a # agents) = map Inr (req # reqs)"
        "map (fetch env) (req # reqs) = map Some (rawCss # csss)"
        using a Inr Some by simp_all
      then show ?thesis by blast
    qed
  qed
qed

lemma fetch_loop_result:
  "map (\<lambda>(extension, agent). request_for agent) agents = map Inr reqs \<Longrightarrow>
   map (fetch env) reqs = map Some csss \<Longrightarrow>
   fetch_loop env wanted request_for agents p acc w =
     (Inr (acc @ concat (map (\<lambda>(i, rawCss). flavor_faces env wanted i rawCss) (enumerate p csss))),
      w\<lparr>requests := requests w @ reqs\<rparr>)"
proof (induction agents arbitrary: p acc w reqs csss)
  case Nil
  then show ?case by simp
next
  case (Cons a agents)
  obtain extension agent where a: "a = (extension, agent)" by (cases a)
  from Cons.prems(1) a obtain req reqs' where reqs: "reqs = req # reqs'"
    and q: "request_for agent = Inr req"
    and qs: "map (\<lambda>(extension, agent). request_for agent) agents = map Inr reqs'"
    by (cases reqs) auto
  from Cons.prems(2) reqs obtain rawCss rest where csss: "csss = rawCss # rest"
    and f: "fetch env req = Some rawCss"
    and r: "map (fetch env) reqs' = map Some rest"
    by (cases csss) auto
  show ?case
    using Cons.IH [OF qs r, of "p + 1" "acc @ flavor_faces env wanted p rawCss"
        "w\<lparr>requests := requests w @ [req]\<rparr>"] a q f csss reqs
    by (simp add: Let_def)
qed

lemma css2_request_agents:
  "map (\<lambda>(extension, agent). css2_request fam glyph ra rv agent) agents = map Inr reqs \<Longrightarrow>
   map user_agent reqs = map snd agents"
proof (induction agents arbitrary: reqs)
  case Nil
  then show ?case by simp
next
  case (Cons a agents)
  obtain extension agent where a: "a = (extension, agent)" by (cases a)
  from Cons.prems a obtain req reqs' where reqs: "reqs = req # reqs'"
    and q: "css2_request fam glyph ra rv agent = Inr req"
    and qs: "map (\<lambda>(extension, agent). css2_request fam glyph ra rv agent) agents = map Inr reqs'"
    by (cases reqs) auto
  have "user_agent req = agent"
    using q by (auto simp: css2_request_def split: js_value.splits)
  then show ?case using Cons.IH [OF qs] reqs a by simp
qed

lemma flavors_sorted:
  "\<exists>ps. map face_priority (concat (map (\<lambda>(i, rawCss). flavor_faces env wanted i rawCss) (enumerate p csss)))
          = map Some ps \<and> sorted ps \<and> (\<forall>x \<in> set ps. p \<le> x)"
proof (induction csss arbitrary: p)
  case Nil
  then show ?case by simp
next
  case (Cons c csss)
  from Cons.IH [of "Suc p"] obtain ps where
    ps: "map face_priority (concat (map (\<lambda>(i, rawCss). flavor_faces env wanted i rawCss) (enumerate (Suc p) csss)))
          = map Some ps" "sorted ps" "\<forall>x \<in> set ps. Suc p \<le> x" by blast
  let ?n = "length (flavor_faces env wanted p c)"
  have first: "map face_priority (flavor_faces env wanted p c) = map Some (replicate ?n p)"
    by (rule nth_equalityI) (simp_all add: flavor_faces_priority [OF nth_mem])
  have "map face_priority (concat (map (\<lambda>(i, rawCss). flavor_faces env wanted i rawCss) (enumerate p (c # csss))))
        = map Some (replicate ?n p @ ps)"
    using first ps(1) by simp
  moreover have "sorted (replicate ?n p @ ps)"
    using ps(2,3) by (auto simp: sorted_append)
  moreover have "\<forall>x \<in> set (replicate ?n p @ ps). p \<le> x"
    using ps(3) by auto
  ultimately show ?case by blast
qed

lemma getFontDetails_known:
  "find (\<lambda>font. family font = fam) (googleFonts env) = Some font \<Longrightarrow>
   glyph_text (provider_options env) fam = Inr glyph \<Longrightarrow>
   getFontDetails env fam options w =
     (if resolved_weights env font options = [] \<or> resolved_styles options = [] then (Inr [], w)
      else
        (case resolveAxes (localeCompare env) (map weight (resolved_weights env font options))
                (resolved_styles options)
                (case map_of (variableAxis (provider_options env)) fam of
                   None \<Rightarrow> [] | Some overrides \<Rightarrow> overrides) of
           Inl e \<Rightarrow> (Inl e, w)
         | Inr (resolvedAxes, resolvedVariants) \<Rightarrow>
             fetch_loop env (subsets options)
               (css2_request fam glyph resolvedAxes resolvedVariants)
               userAgents 0 [] w))"
  by (simp add: getFontDetails_def Let_def)

lemma getFontDetails_glyph_error:
  "find (\<lambda>font. family font = fam) (googleFonts env) = Some font \<Longrightarrow>
   glyph_text (provider_options env) fam = Inl e \<Longrightarrow>
   getFontDetails env fam options w = (Inl e, w)"
  by (simp add: getFontDetails_def Let_def)

lemma glyph_text_ok:
  assumes "\<not> inherited_name fam \<or> glyphs opts = None \<or>
           (\<exists>table. glyphs opts = Some table \<and> fam \<in> fst ` set table)"
  shows "\<exists>glyph. glyph_text opts fam = Inr glyph"
proof (cases "glyphs opts")
  case None
  then show ?thesis by (simp add: glyph_text_def)
next
  case (Some table)
  show ?thesis
  proof (cases "map_of table fam")
    case (Some names)
    then show ?thesis using \<open>glyphs opts = Some table\<close> by (simp add: glyph_text_def)
  next
    case None
    then have "fam \<notin> fst ` set table" by (simp add: map_of_eq_None_iff)
    then have "\<not> inherited_name fam" using assms \<open>glyphs opts = Some table\<close> by auto
    then have "map_of Object_prototype fam = None"
      by (simp add: inherited_name_def map_of_eq_None_iff)
    then show ?thesis using None \<open>glyphs opts = Some table\<close> by (simp add: glyph_text_def)
  qed
qed

lemma getFontDetails_unknown:
  "find (\<lambda>font. family font = fam) (googleFonts env) = None \<Longrightarrow>
   getFontDetails env fam options w = (Inl TypeError, w)"
  by (simp add: getFontDetails_def)

lemma resolved_subsets_irrelevant:
  "resolved_weights env font (options\<lparr>subsets := wanted\<rparr>) = resolved_weights env font options"
  "resolved_styles (options\<lparr>subsets := wanted\<rparr>) = resolved_styles options"
  by (simp_all add: resolved_weights_def resolved_styles_def)

lemma keep_group_mono: "set S \<subseteq> set S' \<Longrightarrow> keep_group S g \<Longrightarrow> keep_group S' g"
  by (auto simp: keep_group_def split: option.splits if_splits)

lemma subseq_filter_mono: "(\<And>x. P x \<Longrightarrow> Q x) \<Longrightarrow> subseq (filter P xs) (filter Q xs)"
  by (induction xs) auto

lemma subseq_concat_map: "subseq xs ys \<Longrightarrow> subseq (concat (map f xs)) (concat (map f ys))"
proof (induction rule: list_emb.induct)
  case (list_emb_Nil ys)
  then show ?case by simp
next
  case (list_emb_Cons xs ys y)
  then show ?case by (simp add: list_emb_append2)
next
  case (list_emb_Cons2 x y xs ys)
  then show ?case by (simp add: list_emb_append_mono)
qed

lemma flavor_faces_mono:
  "set S \<subseteq> set S' \<Longrightarrow> subseq (flavor_faces env S p rawCss) (flavor_faces env S' p rawCss)"
  unfolding flavor_faces_def Let_def
  by (intro subseq_concat_map subseq_filter_mono) (rule keep_group_mono)

lemma flavors_mono:
  "set S \<subseteq> set S' \<Longrightarrow>
   subseq (concat (map (\<lambda>(i, rawCss). flavor_faces env S i rawCss) (enumerate p csss)))
          (concat (map (\<lambda>(i, rawCss). flavor_faces env S' i rawCss) (enumerate p csss)))"
proof (induction csss arbitrary: p)
  case Nil
  then show ?case by simp
next
  case (Cons c csss)
  then show ?case using flavor_faces_mono [of S S' env p c]
    by (simp add: list_emb_append_mono)
qed

text \<open>
  C3: a resolution that returns face records has sent the requests \<open>sent\<close>, none or one
  for each entry of \<^verbatim>\<open>userAgents\<close> in the order of the entries, and these were answered
  with the CSS texts \<open>csss\<close>. The result is the records extracted from the first answer,
  then those from the second, and so on, and every record extracted from the \<open>i\<close>-th
  answer carries priority \<open>i\<close>; so the priorities along the result never decrease. The
  priority does not depend on the subset filter: with any other list of requested subsets
  the resolution returns the records the filter then keeps, each flavor's again under the
  flavor's own number, and a filter that keeps less returns a subsequence of the same
  records.
\<close>

theorem priority_follows_flavor_order:
  assumes "getFontDetails env fam options w = (Inr faces, w')"
  shows "\<exists>sent csss.
           requests w' = requests w @ sent \<and>
           (sent = [] \<or> map user_agent sent = map snd userAgents) \<and>
           map (fetch env) sent = map Some csss \<and>
           faces = concat (map (\<lambda>(i, rawCss). flavor_faces env (subsets options) i rawCss)
                            (enumerate 0 csss)) \<and>
           (\<forall>wanted i rawCss. \<forall>f \<in> set (flavor_faces env wanted i rawCss). face_priority f = Some i) \<and>
           (\<exists>ps. map face_priority faces = map Some ps \<and> sorted ps) \<and>
           (\<forall>wanted. getFontDetails env fam (options\<lparr>subsets := wanted\<rparr>) w =
              (Inr (concat (map (\<lambda>(i, rawCss). flavor_faces env wanted i rawCss) (enumerate 0 csss))),
               w')) \<and>
           (\<forall>wanted. set wanted \<subseteq> set (subsets options) \<longrightarrow>
              subseq (concat (map (\<lambda>(i, rawCss). flavor_faces env wanted i rawCss) (enumerate 0 csss)))
                faces)"
proof -
  obtain font where font: "find (\<lambda>font. family font = fam) (googleFonts env) = Some font"
    using assms getFontDetails_unknown [of fam env options w]
    by (cases "find (\<lambda>font. family font = fam) (googleFonts env)") auto
  obtain glyph where glyph: "glyph_text (provider_options env) fam = Inr glyph"
    using assms getFontDetails_glyph_error [OF font, of _ options w]
    by (cases "glyph_text (provider_options env) fam") auto
  note known = getFontDetails_known [OF font glyph]
  have stamp: "\<forall>wanted i rawCss. \<forall>f \<in> set (flavor_faces env wanted i rawCss). face_priority f = Some i"
    using flavor_faces_priority by blast
  have main: "\<exists>sent csss.
           requests w' = requests w @ sent \<and>
           (sent = [] \<or> map user_agent sent = map snd userAgents) \<and>
           map (fetch env) sent = map Some csss \<and>
           faces = concat (map (\<lambda>(i, rawCss). flavor_faces env (subsets options) i rawCss)
                            (enumerate 0 csss)) \<and>
           (\<forall>wanted. getFontDetails env fam (options\<lparr>subsets := wanted\<rparr>) w =
              (Inr (concat (map (\<lambda>(i, rawCss). flavor_faces env wanted i rawCss) (enumerate 0 csss))),
               w'))"
  proof (cases "resolved_weights env font options = [] \<or> resolved_styles options = []")
    case True
    then have "faces = []" "w' = w" using assms known [of options w] by auto
    moreover have "getFontDetails env fam (options\<lparr>subsets := wanted\<rparr>) w = (Inr [], w)" for wanted
      using True known [of "options\<lparr>subsets := wanted\<rparr>" w]
      by (auto simp: resolved_subsets_irrelevant)
    ultimately show ?thesis by (intro exI [of _ "[]"]) simp
  next
    case False
    let ?r = "resolveAxes (localeCompare env) (map weight (resolved_weights env font options))
                (resolved_styles options)
                (case map_of (variableAxis (provider_options env)) fam of
                   None \<Rightarrow> [] | Some overrides \<Rightarrow> overrides)"
    obtain ra rv where rr: "?r = Inr (ra, rv)"
      using assms known [of options w] False by (cases ?r) auto
    have loop: "fetch_loop env (subsets options) (css2_request fam glyph ra rv) userAgents 0 [] w = (Inr faces, w')"
      using assms known [of options w] False rr by simp
    from fetch_loop_answers [OF loop] obtain sent csss where
      sent: "map (\<lambda>(extension, agent). css2_request fam glyph ra rv agent) userAgents = map Inr sent"
      and csss: "map (fetch env) sent = map Some csss"
      by blast
    have agents: "map user_agent sent = map snd userAgents"
      using sent by (rule css2_request_agents)
    note res = fetch_loop_result [OF sent csss, of _ 0 "[]" w]
    have f: "faces = concat (map (\<lambda>(i, rawCss). flavor_faces env (subsets options) i rawCss) (enumerate 0 csss))"
      and w': "w' = w\<lparr>requests := requests w @ sent\<rparr>"
      using loop res [of "subsets options"] by simp_all
    have other: "getFontDetails env fam (options\<lparr>subsets := wanted\<rparr>) w =
            (Inr (concat (map (\<lambda>(i, rawCss). flavor_faces env wanted i rawCss) (enumerate 0 csss))), w')" for wanted
      using known [of "options\<lparr>subsets := wanted\<rparr>" w] False rr res [of wanted] w'
      by (simp add: resolved_subsets_irrelevant)
    have rq: "requests w' = requests w @ sent" using w' by simp
    show ?thesis using rq agents csss f other by blast
  qed
  then obtain sent csss where c: "requests w' = requests w @ sent"
    "sent = [] \<or> map user_agent sent = map snd userAgents"
    "map (fetch env) sent = map Some csss"
    "faces = concat (map (\<lambda>(i, rawCss). flavor_faces env (subsets options) i rawCss) (enumerate 0 csss))"
    "\<forall>wanted. getFontDetails env fam (options\<lparr>subsets := wanted\<rparr>) w =
              (Inr (concat (map (\<lambda>(i, rawCss). flavor_faces env wanted i rawCss) (enumerate 0 csss))), w')"
    by blast
  have srt: "\<exists>ps. map face_priority faces = map Some ps \<and> sorted ps"
    using flavors_sorted [of env "subsets options" 0 csss] c(4) by blast
  have sub: "\<forall>wanted. set wanted \<subseteq> set (subsets options) \<longrightarrow>
              subseq (concat (map (\<lambda>(i, rawCss). flavor_faces env wanted i rawCss) (enumerate 0 csss))) faces"
    using flavors_mono [of _ "subsets options" env 0 csss] c(4) by simp
  show ?thesis using c stamp srt sub by blast
qed

text \<open>
  C9: for a family that is not in the family index, \<^verbatim>\<open>resolveFont\<close> returns the absent
  result, whatever the options; nothing is fetched and nothing is stored.
\<close>

theorem resolveFont_unknown_family:
  "fontFamily \<notin> family ` set (googleFonts env) \<Longrightarrow>
   resolveFont env fontFamily options w = (Inr None, w)"
  by (auto simp: resolveFont_def list_ex_iff)

text \<open>Instance of C9.\<close>

theorem resolveFont_unknown_family_witness:
  "resolveFont sample_env ''Comic Sans'' sample_options empty_world = (Inr None, empty_world)"
  using resolveFont_unknown_family [of "''Comic Sans''" sample_env sample_options empty_world]
  by (simp add: sample_env_def)

lemma requests_getItem:
  "requests (snd (init w)) = requests w \<Longrightarrow> requests (snd (getItem key init w)) = requests w"
  by (auto simp: getItem_def split: option.splits prod.splits sum.splits)

text \<open>
  The short circuit of lines 92 and 93, once line 80 has read the glyph list (the family's
  name is not one that every object inherits, or no glyph table is configured, or the
  table has the family): for a known family, when the reconciled weight list or the
  deduplicated style list is empty, \<^verbatim>\<open>getFontDetails\<close> returns the empty sequence and
  leaves the world as it was: no request is sent. \<^verbatim>\<open>resolveFont\<close> sends no request either
  and returns a present result; when the cache has no entry for the key, the result is
  the empty sequence, which is then stored.
\<close>

theorem empty_selection_short_circuit:
  assumes font: "find (\<lambda>font. family font = fam) (googleFonts env) = Some font"
    and readable: "\<not> inherited_name fam \<or> glyphs (provider_options env) = None \<or>
           (\<exists>table. glyphs (provider_options env) = Some table \<and> fam \<in> fst ` set table)"
    and empty: "resolved_weights env font options = [] \<or> resolved_styles options = []"
  shows "getFontDetails env fam options w = (Inr [], w) \<and>
         requests (snd (resolveFont env fam options w)) = requests w \<and>
         (\<exists>fonts'. fst (resolveFont env fam options w) = Inr (Some fonts')) \<and>
         (map_of (storage w) (cache_key env fam options) = None \<longrightarrow>
            resolveFont env fam options w =
              (Inr (Some []), w\<lparr>storage := (cache_key env fam options, []) # storage w\<rparr>))"
proof -
  obtain glyph where glyph: "glyph_text (provider_options env) fam = Inr glyph"
    using glyph_text_ok [OF readable] by blast
  have g: "getFontDetails env fam options w = (Inr [], w)" for w
    using getFontDetails_known [OF font glyph, of options w] empty by auto
  have known: "list_ex (\<lambda>font. family font = fam) (googleFonts env)"
    using font by (auto simp: list_ex_iff find_Some_iff)
  have r: "resolveFont env fam options w =
        (case getItem (cache_key env fam options) (getFontDetails env fam options) w of
           (Inl e, w') \<Rightarrow> (Inl e, w')
         | (Inr fonts', w') \<Rightarrow> (Inr (Some fonts'), w'))"
    using known by (simp add: resolveFont_def)
  have "requests (snd (getItem (cache_key env fam options) (getFontDetails env fam options) w)) = requests w"
    by (rule requests_getItem) (simp add: g)
  then have req: "requests (snd (resolveFont env fam options w)) = requests w"
    using r by (auto split: prod.splits sum.splits)
  have miss: "resolveFont env fam options w =
              (Inr (Some []), w\<lparr>storage := (cache_key env fam options, []) # storage w\<rparr>)"
    if "map_of (storage w) (cache_key env fam options) = None"
    using r that g by (simp add: getItem_def)
  have "\<exists>fonts'. fst (getItem (cache_key env fam options) (getFontDetails env fam options) w) = Inr fonts'"
    by (cases "map_of (storage w) (cache_key env fam options)") (simp_all add: getItem_def g)
  then have present: "\<exists>fonts'. fst (resolveFont env fam options w) = Inr (Some fonts')"
    using r by (auto split: prod.splits sum.splits)
  show ?thesis using g req present miss by blast
qed

lemma set_Set_add_all: "set (Set_add_all seen xs) = set seen \<union> set xs"
  by (induction xs arbitrary: seen) auto

lemma distinct_Set_add_all: "distinct seen \<Longrightarrow> distinct (Set_add_all seen xs)"
  by (induction xs arbitrary: seen) auto

lemma resolved_styles_set:
  "styleMap ` set (styles a) = styleMap ` set (styles b) \<Longrightarrow> resolved_styles a = resolved_styles b"
  unfolding resolved_styles_def new_Set_def
  by (rule sorted_distinct_set_unique)
     (simp_all add: set_Set_add_all distinct_Set_add_all)

text \<open>
  C10: \<^verbatim>\<open>italic\<close> and \<^verbatim>\<open>oblique\<close> have the code 1 and \<^verbatim>\<open>normal\<close> the code 0. For a
  style list that holds \<^verbatim>\<open>italic\<close>, removing every \<^verbatim>\<open>oblique\<close> changes neither the
  list of style codes nor anything \<^verbatim>\<open>getFontDetails\<close> does.
\<close>

theorem oblique_same_as_italic:
  "styleMap italic = ''1'' \<and> styleMap oblique = ''1'' \<and> styleMap normal = ''0'' \<and>
   (italic \<in> set (styles options) \<longrightarrow>
      resolved_styles (options\<lparr>styles := removeAll oblique (styles options)\<rparr>) = resolved_styles options \<and>
      getFontDetails env fam (options\<lparr>styles := removeAll oblique (styles options)\<rparr>) w =
        getFontDetails env fam options w)"
proof -
  have eq: "resolved_styles (options\<lparr>styles := removeAll oblique (styles options)\<rparr>) = resolved_styles options"
    if "italic \<in> set (styles options)"
  proof (rule resolved_styles_set)
    have "styleMap ` (set (styles options) - {oblique}) = styleMap ` set (styles options)"
    proof
      show "styleMap ` (set (styles options) - {oblique}) \<subseteq> styleMap ` set (styles options)" by blast
      show "styleMap ` set (styles options) \<subseteq> styleMap ` (set (styles options) - {oblique})"
      proof
        fix c assume "c \<in> styleMap ` set (styles options)"
        then obtain s where s: "s \<in> set (styles options)" "c = styleMap s" by blast
        show "c \<in> styleMap ` (set (styles options) - {oblique})"
        proof (cases "s = oblique")
          case True
          then have "c = styleMap italic" using s by simp
          then show ?thesis using that by blast
        next
          case False
          then show ?thesis using s by blast
        qed
      qed
    qed
    then show "styleMap ` set (styles (options\<lparr>styles := removeAll oblique (styles options)\<rparr>)) =
          styleMap ` set (styles options)" by simp
  qed
  have w: "resolved_weights env font (options\<lparr>styles := ss\<rparr>) = resolved_weights env font options" for font ss
    by (simp add: resolved_weights_def)
  have "getFontDetails env fam (options\<lparr>styles := removeAll oblique (styles options)\<rparr>) w =
        getFontDetails env fam options w" if "italic \<in> set (styles options)"
  proof (cases "find (\<lambda>font. family font = fam) (googleFonts env)")
    case None
    then show ?thesis by (simp add: getFontDetails_unknown)
  next
    case (Some font)
    show ?thesis
    proof (cases "glyph_text (provider_options env) fam")
      case (Inl e)
      then show ?thesis by (simp add: getFontDetails_glyph_error [OF Some])
    next
      case (Inr glyph)
      show ?thesis
        using getFontDetails_known [OF Some Inr, of options w]
          getFontDetails_known [OF Some Inr, of "options\<lparr>styles := removeAll oblique (styles options)\<rparr>" w]
          eq [OF that]
        by (simp add: w split: sum.splits prod.splits)
    qed
  qed
  then show ?thesis using eq by simp
qed

text \<open>Instance of C10.\<close>

theorem oblique_same_as_italic_witness:
  "resolved_styles (sample_options\<lparr>styles := [oblique, normal, italic]\<rparr>) = [''0'', ''1''] \<and>
   resolved_styles (sample_options\<lparr>styles := [normal, italic]\<rparr>) = [''0'', ''1'']"
proof -
  have "resolved_styles (sample_options\<lparr>styles := [normal, italic]\<rparr>) =
        resolved_styles (sample_options\<lparr>styles := [oblique, normal, italic]\<rparr>)"
    using oblique_same_as_italic [of "sample_options\<lparr>styles := [oblique, normal, italic]\<rparr>"
        sample_env "''Roboto''" empty_world]
    by simp
  moreover have "resolved_styles (sample_options\<lparr>styles := [normal, italic]\<rparr>) = [''0'', ''1'']"
    by (simp add: resolved_styles_def new_Set_def less_eq_char_def less_char_def)
  ultimately show ?thesis by simp
qed

section \<open>Instances\<close>

lemma sample_font:
  "find (\<lambda>font. family font = ''Roboto'') (googleFonts sample_env) =
     Some \<lparr>family = ''Roboto'', index_subsets = [''latin'', ''cyrillic''],
          fonts = [(''400'', \<lparr>thickness = None, slant = None, width = None, lineHeight = None\<rparr>),
                   (''700'', \<lparr>thickness = None, slant = None, width = None, lineHeight = None\<rparr>)],
          axes = []\<rparr>"
  by (simp add: sample_env_def)

lemma sample_glyphs: "glyphs (provider_options sample_env) = None"
  by (simp add: sample_env_def)

text \<open>An instance of the short circuit: no style is requested.\<close>

theorem empty_selection_short_circuit_witness:
  "getFontDetails sample_env ''Roboto'' (sample_options\<lparr>styles := []\<rparr>) empty_world = (Inr [], empty_world) \<and>
   resolveFont sample_env ''Roboto'' (sample_options\<lparr>styles := []\<rparr>) empty_world =
     (Inr (Some []), \<lparr>requests = [], storage = [(''google:Roboto-0-data.json'', [])]\<rparr>)"
proof -
  have e: "resolved_weights sample_env \<lparr>family = ''Roboto'', index_subsets = [''latin'', ''cyrillic''],
          fonts = [(''400'', \<lparr>thickness = None, slant = None, width = None, lineHeight = None\<rparr>),
                   (''700'', \<lparr>thickness = None, slant = None, width = None, lineHeight = None\<rparr>)],
          axes = []\<rparr> (sample_options\<lparr>styles := []\<rparr>) = [] \<or>
        resolved_styles (sample_options\<lparr>styles := []\<rparr>) = []"
    by (simp add: resolved_styles_def new_Set_def)
  have rd: "\<not> inherited_name ''Roboto'' \<or> glyphs (provider_options sample_env) = None \<or>
           (\<exists>table. glyphs (provider_options sample_env) = Some table \<and> ''Roboto'' \<in> fst ` set table)"
    by (simp add: inherited_name_def Object_prototype_def)
  have k: "cache_key sample_env ''Roboto'' (sample_options\<lparr>styles := []\<rparr>) = ''google:Roboto-0-data.json''"
    by (simp add: cache_key_def sample_env_def)
  show ?thesis
    using empty_selection_short_circuit [OF sample_font rd e, of empty_world] k
    by (simp add: empty_world_def)
qed


lemma sample_axes0: "active_axes codeUnitCompare [] = [''ital'', ''wght'']"
  by (simp add: active_axes_def sort_by_def googleFlavoredSorting_def charAt_def toLowerCase_def
      toLowerCase_char_def less_eq_char_def Number_def codeUnitCompare_def less_char_def)

lemma sample_getFontDetails:
  "getFontDetails sample_env ''Roboto'' sample_options empty_world =
     (Inr [\<lparr>descriptors = ''@font-face{font-family:X;src:url(a.woff2)}'',
            meta = Some \<lparr>priority = Some 0\<rparr>\<rparr>,
           \<lparr>descriptors = ''@font-face{font-family:X;src:url(b.woff2)}'',
            meta = Some \<lparr>priority = Some 1\<rparr>\<rparr>],
      \<lparr>requests = map (\<lambda>(extension, agent).
           \<lparr>user_agent = agent, query_family = ''Roboto:ital,wght@0,400'', query_text = None\<rparr>) userAgents,
       storage = []\<rparr>)"
proof -
  let ?sent = "map (\<lambda>(extension, agent).
           \<lparr>user_agent = agent, query_family = ''Roboto:ital,wght@0,400'', query_text = None\<rparr>) userAgents"
  have w: "resolved_weights sample_env \<lparr>family = ''Roboto'', index_subsets = [''latin'', ''cyrillic''],
          fonts = [(''400'', \<lparr>thickness = None, slant = None, width = None, lineHeight = None\<rparr>),
                   (''700'', \<lparr>thickness = None, slant = None, width = None, lineHeight = None\<rparr>)],
          axes = []\<rparr> sample_options = [\<lparr>weight = ''400'', variable = False\<rparr>]"
    by (simp add: resolved_weights_def sample_env_def sample_options_def)
  have s: "resolved_styles sample_options = [''0'']"
    by (simp add: resolved_styles_def new_Set_def sample_options_def)
  have lc: "localeCompare sample_env = codeUnitCompare"
    and po: "provider_options sample_env = \<lparr>variableAxis = [], glyphs = None\<rparr>"
    by (simp_all add: sample_env_def)
  have gl: "glyph_text (provider_options sample_env) ''Roboto'' = Inr None"
    by (simp add: glyph_text_def sample_env_def)
  have r: "resolveAxes codeUnitCompare [''400''] [''0''] [] = Inr ([''ital'', ''wght''], StringArray [''0,400''])"
    by (simp add: resolveAxes_def sample_axes0 lookup_axisValue_def value_length_def)
  have f1: "flavor_faces sample_env [''latin''] 0 two_subsets_css =
      [\<lparr>descriptors = ''@font-face{font-family:X;src:url(a.woff2)}'', meta = Some \<lparr>priority = Some 0\<rparr>\<rparr>]"
    by (simp add: flavor_faces_def sample_env_def splitCssIntoSubsets_def sample_parse_def
        collect_comment_def at_last_def trim_def isWhiteSpace_def keep_group_def set_priority_def)
  have ne: "one_subset_css \<noteq> two_subsets_css" "one_subset_css \<noteq> orphan_css"
    "one_subset_css \<noteq> orphan_removed_css"
    by (simp_all add: one_subset_css_def two_subsets_css_def orphan_css_def orphan_removed_css_def)
  have f2: "flavor_faces sample_env [''latin''] (Suc 0) one_subset_css =
      [\<lparr>descriptors = ''@font-face{font-family:X;src:url(b.woff2)}'', meta = Some \<lparr>priority = Some (Suc 0)\<rparr>\<rparr>]"
    using ne
    by (simp add: flavor_faces_def sample_env_def splitCssIntoSubsets_def sample_parse_def
        collect_comment_def at_last_def trim_def isWhiteSpace_def keep_group_def set_priority_def)
  have rq: "map (\<lambda>(extension, agent).
                 css2_request ''Roboto'' None [''ital'', ''wght''] (StringArray [''0,400'']) agent) userAgents =
            map Inr ?sent"
    by (simp add: css2_request_def userAgents_def)
  have fe: "map (fetch sample_env) ?sent = map Some [two_subsets_css, one_subset_css]"
    by (simp add: sample_env_def userAgents_def)
  have loop: "fetch_loop sample_env [''latin'']
         (css2_request ''Roboto'' None [''ital'', ''wght''] (StringArray [''0,400'']))
         userAgents 0 [] empty_world =
     (Inr [\<lparr>descriptors = ''@font-face{font-family:X;src:url(a.woff2)}'',
            meta = Some \<lparr>priority = Some 0\<rparr>\<rparr>,
           \<lparr>descriptors = ''@font-face{font-family:X;src:url(b.woff2)}'',
            meta = Some \<lparr>priority = Some 1\<rparr>\<rparr>],
      \<lparr>requests = ?sent, storage = []\<rparr>)"
    using fetch_loop_result [OF rq fe, of "[''latin'']" 0 "[]" empty_world] f1 f2
    by (simp add: empty_world_def)
  show ?thesis
    using getFontDetails_known [OF sample_font gl, of sample_options empty_world] w s lc po r loop
    by (simp add: sample_options_def)
qed

text \<open>
  Instance of C3: the first flavor is answered with the two-subset document, the second
  with a one-subset document; the subset \<^verbatim>\<open>latin\<close> is requested.
\<close>

theorem priority_follows_flavor_order_witness:
  "getFontDetails sample_env ''Roboto'' sample_options empty_world =
     (Inr [\<lparr>descriptors = ''@font-face{font-family:X;src:url(a.woff2)}'',
            meta = Some \<lparr>priority = Some 0\<rparr>\<rparr>,
           \<lparr>descriptors = ''@font-face{font-family:X;src:url(b.woff2)}'',
            meta = Some \<lparr>priority = Some 1\<rparr>\<rparr>],
      \<lparr>requests = map (\<lambda>(extension, agent).
           \<lparr>user_agent = agent, query_family = ''Roboto:ital,wght@0,400'', query_text = None\<rparr>) userAgents,
       storage = []\<rparr>) \<and>
   (\<exists>ps. map face_priority
           [\<lparr>descriptors = ''@font-face{font-family:X;src:url(a.woff2)}'',
             meta = Some \<lparr>priority = Some 0\<rparr>\<rparr>,
            \<lparr>descriptors = ''@font-face{font-family:X;src:url(b.woff2)}'',
             meta = Some \<lparr>priority = Some 1\<rparr>\<rparr>] = map Some ps \<and> sorted ps)"
  using priority_follows_flavor_order [OF sample_getFontDetails] sample_getFontDetails
  by blast

text \<open>An instance of the fold: two weights, two styles and one width range.\<close>

theorem resolveAxes_product_witness:
  "resolveAxes codeUnitCompare [''400'', ''700''] [''0'', ''1''] [(''wdth'', [Pair ''75'' ''100''])] =
     Inr ([''ital'', ''wdth'', ''wght''],
          StringArray [''0,75..100,400'', ''0,75..100,700'', ''1,75..100,400'', ''1,75..100,700'']) \<and>
   length [''0,75..100,400'', ''0,75..100,700'', ''1,75..100,400'', ''1,75..100,700''] =
     prod_list (map length [[''0'', ''1''], [''75..100''], [''400'', ''700'']])"
proof -
  let ?ws = "[''400'', ''700'']" and ?ss = "[''0'', ''1'']" and ?ov = "[(''wdth'', [Pair ''75'' ''100''])]"
  have h: "?ws \<noteq> []" "?ss \<noteq> []" "\<forall>vs \<in> snd ` set ?ov. vs \<noteq> []"
    "\<forall>name \<in> fst ` set ?ov. \<not> inherited_name name"
    by (simp_all add: inherited_name_def Object_prototype_def)
  from resolveAxes_product [OF h, of codeUnitCompare] obtain vals variants where
    v: "list_all2 (\<lambda>a vs. lookup_axisValue ?ws ?ss ?ov a = Inr (StringArray vs))
          (active_axes codeUnitCompare ?ov) vals"
    and r: "resolveAxes codeUnitCompare ?ws ?ss ?ov = Inr (active_axes codeUnitCompare ?ov, StringArray variants)"
    and l: "length variants = prod_list (map length vals)"
    by blast
  have vals: "vals = [[''0'', ''1''], [''75..100''], [''400'', ''700'']]"
    using v by (auto simp: sample_axes list_all2_Cons1 lookup_axisValue_def render_entry_def
        Object_prototype_def)
  have "variants = [''0,75..100,400'', ''0,75..100,700'', ''1,75..100,400'', ''1,75..100,700'']"
    using r sample_resolve by simp
  then show ?thesis using r l vals sample_axes by simp
qed

text \<open>
  C1 fails on the code for an override axis named like an inherited property, although
  every value list is non-empty: the literal of line 99 answers \<^verbatim>\<open>constructor\<close> with the
  function \<^verbatim>\<open>Object\<close>, which the first pass stores as \<^verbatim>\<open>resolvedVariants\<close>; its \<^verbatim>\<open>length\<close>
  is 1, so the second pass calls \<^verbatim>\<open>flatMap\<close> on it, and the loop ends with a \<^verbatim>\<open>TypeError\<close>
  and no variant.
\<close>

theorem resolveAxes_inherited_axis_throws:
  "[''400''] \<noteq> ([] :: string list) \<and> [''0''] \<noteq> ([] :: string list) \<and>
   list_all (\<lambda>vs. vs \<noteq> []) (map snd [(''constructor'', [Single ''1''])]) \<and>
   active_axes codeUnitCompare [(''constructor'', [Single ''1''])] = [''constructor'', ''ital'', ''wght''] \<and>
   resolveAxes codeUnitCompare [''400''] [''0''] [(''constructor'', [Single ''1''])] = Inl TypeError"
  using resolveAxes_constructor
  by (simp add: active_axes_def sort_by_def googleFlavoredSorting_def charAt_def
      toLowerCase_def toLowerCase_char_def less_eq_char_def Number_def codeUnitCompare_def
      less_char_def)

text \<open>
  C7 fails on the code. With an empty value list for \<^verbatim>\<open>opsz\<close>, the running product is
  empty after the second axis, the test \<^verbatim>\<open>resolvedVariants.length === 0\<close> of line 104
  takes the third axis for the first one, and the only variant has one token for three
  axes. The request is sent with that variant.
\<close>

theorem empty_override_restarts_product:
  "resolveAxes codeUnitCompare [''400''] [''0''] [(''opsz'', [])] =
     Inr ([''ital'', ''opsz'', ''wght''], StringArray [''400'']) \<and>
   map query_family (requests (snd (getFontDetails opsz_env ''Roboto'' sample_options empty_world))) =
     [''Roboto:ital,opsz,wght@400'', ''Roboto:ital,opsz,wght@400'']"
proof -
  let ?font = "\<lparr>family = ''Roboto'', index_subsets = [''latin'', ''cyrillic''],
          fonts = [(''400'', \<lparr>thickness = None, slant = None, width = None, lineHeight = None\<rparr>),
                   (''700'', \<lparr>thickness = None, slant = None, width = None, lineHeight = None\<rparr>)],
          axes = []\<rparr>"
  let ?sent = "map (\<lambda>(extension, agent).
           \<lparr>user_agent = agent, query_family = ''Roboto:ital,opsz,wght@400'', query_text = None\<rparr>) userAgents"
  have font: "find (\<lambda>font. family font = ''Roboto'') (googleFonts opsz_env) = Some ?font"
    by (simp add: opsz_env_def sample_env_def)
  have gl: "glyph_text (provider_options opsz_env) ''Roboto'' = Inr None"
    by (simp add: glyph_text_def opsz_env_def sample_env_def)
  have w: "resolved_weights opsz_env ?font sample_options = [\<lparr>weight = ''400'', variable = False\<rparr>]"
    by (simp add: resolved_weights_def opsz_env_def sample_env_def sample_options_def)
  have s: "resolved_styles sample_options = [''0'']"
    by (simp add: resolved_styles_def new_Set_def sample_options_def)
  have lc: "localeCompare opsz_env = codeUnitCompare"
    and po: "provider_options opsz_env = \<lparr>variableAxis = [(''Roboto'', [(''opsz'', [])])], glyphs = None\<rparr>"
    by (simp_all add: opsz_env_def sample_env_def)
  have rq: "map (\<lambda>(extension, agent).
                 css2_request ''Roboto'' None [''ital'', ''opsz'', ''wght''] (StringArray [''400'']) agent)
              userAgents = map Inr ?sent"
    by (simp add: css2_request_def userAgents_def)
  have fe: "map (fetch opsz_env) ?sent = map Some [two_subsets_css, one_subset_css]"
    by (simp add: opsz_env_def sample_env_def userAgents_def)
  have g: "getFontDetails opsz_env ''Roboto'' sample_options empty_world =
     fetch_loop opsz_env [''latin'']
       (css2_request ''Roboto'' None [''ital'', ''opsz'', ''wght''] (StringArray [''400'']))
       userAgents 0 [] empty_world"
    using getFontDetails_known [OF font gl, of sample_options empty_world] w s lc po resolveAxes_empty_opsz
    by (simp add: sample_options_def)
  have "requests (snd (getFontDetails opsz_env ''Roboto'' sample_options empty_world)) = ?sent"
    using fetch_loop_result [OF rq fe, of "[''latin'']" 0 "[]" empty_world] g
    by (simp add: empty_world_def)
  then show ?thesis using resolveAxes_empty_opsz by (simp add: userAgents_def)
qed

end
